theory Spec2Isabelle
  imports Complex_Main "HOL-Library.Code_Target_Numeral"
begin

section \<open>JavaScript strings\<close>

text \<open>
  A JavaScript string is a sequence of UTF-16 code units. The parsers use regular
  expressions without the \<open>u\<close> flag, so every pattern works on code units: a glyph
  outside the Basic Multilingual Plane is a literal of two code units (a surrogate pair).
  A code unit is modelled as a natural number (below 65536 in every real string).
\<close>

type_synonym jstring = "nat list"

definition ascii :: "string \<Rightarrow> jstring" where
  "ascii s = map of_char s"

text \<open>The glyphs of the source, as code units.\<close>

definition BOX_H :: nat where "BOX_H = 0x2500"   \<comment> \<open>horizontal border\<close>
definition BOX_V :: nat where "BOX_V = 0x2502"   \<comment> \<open>vertical border\<close>
definition BOX_TL :: nat where "BOX_TL = 0x250C"  \<comment> \<open>top-left corner\<close>
definition BOX_TR :: nat where "BOX_TR = 0x2510"  \<comment> \<open>top-right corner\<close>
definition BOX_BL :: nat where "BOX_BL = 0x2514"  \<comment> \<open>bottom-left corner\<close>
definition BOX_BR :: nat where "BOX_BR = 0x2518"  \<comment> \<open>bottom-right corner\<close>
definition BULLET :: nat where "BULLET = 0x2022"

definition PAGE :: jstring where "PAGE = [0xD83D, 0xDCC4]"      \<comment> \<open>U+1F4C4, the file glyph\<close>
definition CHART :: jstring where "CHART = [0xD83D, 0xDCCA]"     \<comment> \<open>U+1F4CA, the similarity glyph\<close>
definition MEMO :: jstring where "MEMO = [0xD83D, 0xDCDD]"      \<comment> \<open>U+1F4DD, the docstring glyph\<close>
definition BULB :: jstring where "BULB = [0xD83D, 0xDCA1]"      \<comment> \<open>U+1F4A1, the answer glyph\<close>
definition DIAMOND :: jstring where "DIAMOND = [0xD83D, 0xDD39]"   \<comment> \<open>U+1F539, the file-change glyph\<close>
definition WARNING :: jstring where "WARNING = [0x26A0, 0xFE0F]"   \<comment> \<open>U+26A0 U+FE0F\<close>

subsection \<open>Character classes\<close>

text \<open>
  \<open>\s\<close> and \<open>trim\<close> use the same set: WhiteSpace and LineTerminator of ECMAScript.
  The dot matches every code unit but the four line terminators.
\<close>

definition is_space :: "nat \<Rightarrow> bool" where
  "is_space c = (c = 9 \<or> c = 10 \<or> c = 11 \<or> c = 12 \<or> c = 13 \<or> c = 32 \<or> c = 0xA0
     \<or> c = 0x1680 \<or> (0x2000 \<le> c \<and> c \<le> 0x200A) \<or> c = 0x2028 \<or> c = 0x2029
     \<or> c = 0x202F \<or> c = 0x205F \<or> c = 0x3000 \<or> c = 0xFEFF)"

definition is_digit :: "nat \<Rightarrow> bool" where
  "is_digit c = (48 \<le> c \<and> c \<le> 57)"

definition is_word :: "nat \<Rightarrow> bool" where
  "is_word c = (is_digit c \<or> (65 \<le> c \<and> c \<le> 90) \<or> (97 \<le> c \<and> c \<le> 122) \<or> c = 95)"

definition is_line_terminator :: "nat \<Rightarrow> bool" where
  "is_line_terminator c = (c = 10 \<or> c = 13 \<or> c = 0x2028 \<or> c = 0x2029)"

datatype cls =
    Digit                 \<comment> \<open>\<open>\d\<close>\<close>
  | WordCh                \<comment> \<open>\<open>\w\<close>\<close>
  | Space                 \<comment> \<open>\<open>\s\<close>\<close>
  | Dot                   \<comment> \<open>\<open>.\<close>\<close>
  | OneOf "nat list"      \<comment> \<open>\<open>[abc]\<close>\<close>
  | DigitOrDot            \<comment> \<open>\<open>[\d.]\<close>\<close>
  | HexLower              \<comment> \<open>\<open>[0-9a-f]\<close>\<close>

fun cls_mem :: "cls \<Rightarrow> nat \<Rightarrow> bool" where
  "cls_mem Digit c = is_digit c"
| "cls_mem WordCh c = is_word c"
| "cls_mem Space c = is_space c"
| "cls_mem Dot c = (\<not> is_line_terminator c)"
| "cls_mem (OneOf cs) c = (c \<in> set cs)"
| "cls_mem DigitOrDot c = (is_digit c \<or> c = 46)"
| "cls_mem HexLower c = (is_digit c \<or> (97 \<le> c \<and> c \<le> 102))"

section \<open>Regular expressions\<close>

text \<open>
  The patterns of the three parsers are sequences of literals, character classes under
  a quantifier (\<open>*\<close>, \<open>+\<close>, \<open>+?\<close>, \<open>{8}\<close>), one alternation of two literals, capture
  groups that are neither nested in a quantifier nor optional, and the anchors. A pattern
  is a list of nodes; \<open>c+\<close> is \<open>[One c, Star c]\<close>, \<open>c+?\<close> is \<open>[One c, LazyStar c]\<close>.

  \<open>rmatch\<close> is the backtracking matcher of ECMAScript on this fragment: the rest of the
  node list is the continuation, a greedy star first tries one more character, a lazy
  star first tries the continuation. It takes the text left to read, the position
  reached, and the capture positions, and returns the end of the match and the captures.
\<close>

datatype node =
    Lit jstring
  | One cls
  | Star cls
  | LazyStar cls
  | Alt jstring jstring
  | Open nat
  | Close nat
  | Bol
  | Eol

record caps =
  opened :: "(nat \<times> nat) list"
  closed :: "(nat \<times> nat \<times> nat) list"

fun strip_prefix :: "jstring \<Rightarrow> jstring \<Rightarrow> jstring option" where
  "strip_prefix [] s = Some s"
| "strip_prefix (p # ps) [] = None"
| "strip_prefix (p # ps) (x # xs) = (if p = x then strip_prefix ps xs else None)"

function rmatch :: "node list \<Rightarrow> jstring \<Rightarrow> nat \<Rightarrow> caps \<Rightarrow> (nat \<times> caps) option" where
  "rmatch [] s i c = Some (i, c)"
| "rmatch (Lit l # r) s i c =
     (case strip_prefix l s of None \<Rightarrow> None | Some s' \<Rightarrow> rmatch r s' (i + length l) c)"
| "rmatch (One k # r) s i c =
     (case s of [] \<Rightarrow> None
      | x # xs \<Rightarrow> if cls_mem k x then rmatch r xs (Suc i) c else None)"
| "rmatch (Star k # r) s i c =
     (case s of [] \<Rightarrow> rmatch r s i c
      | x # xs \<Rightarrow>
          if cls_mem k x
          then (case rmatch (Star k # r) xs (Suc i) c of
                  Some res \<Rightarrow> Some res
                | None \<Rightarrow> rmatch r s i c)
          else rmatch r s i c)"
| "rmatch (LazyStar k # r) s i c =
     (case rmatch r s i c of
        Some res \<Rightarrow> Some res
      | None \<Rightarrow>
          (case s of [] \<Rightarrow> None
           | x # xs \<Rightarrow> if cls_mem k x then rmatch (LazyStar k # r) xs (Suc i) c else None))"
| "rmatch (Alt a b # r) s i c =
     (case (case strip_prefix a s of None \<Rightarrow> None | Some s' \<Rightarrow> rmatch r s' (i + length a) c) of
        Some res \<Rightarrow> Some res
      | None \<Rightarrow>
          (case strip_prefix b s of None \<Rightarrow> None | Some s' \<Rightarrow> rmatch r s' (i + length b) c))"
| "rmatch (Open g # r) s i c = rmatch r s i (c\<lparr>opened := (g, i) # opened c\<rparr>)"
| "rmatch (Close g # r) s i c =
     (case map_of (opened c) g of
        None \<Rightarrow> rmatch r s i c
      | Some b \<Rightarrow> rmatch r s i (c\<lparr>closed := (g, b, i) # closed c\<rparr>))"
| "rmatch (Bol # r) s i c = (if i = 0 then rmatch r s i c else None)"
| "rmatch (Eol # r) s i c = (if s = [] then rmatch r s i c else None)"
  by pat_completeness auto

lemma strip_prefix_consumes: "strip_prefix p s = Some s' \<Longrightarrow> s = p @ s'"
  by (induction p s rule: strip_prefix.induct) (auto split: if_splits)

lemma strip_prefix_length: "strip_prefix p s = Some s' \<Longrightarrow> length s' \<le> length s"
  by (auto dest: strip_prefix_consumes)

termination rmatch
  by (relation "measure (\<lambda>(r, s, i, c). length r + length s)")
     (auto dest: strip_prefix_length)

text \<open>
  A match: where it starts, where it ends, and the captures. \<open>rexec\<close> is
  \<open>RegExp.prototype.exec\<close> of a pattern without the \<open>g\<close> flag: the leftmost start
  at which the matcher succeeds.
\<close>

record jmatch =
  m_start :: nat
  m_end :: nat
  m_closed :: "(nat \<times> nat \<times> nat) list"

fun exec_from :: "node list \<Rightarrow> jstring \<Rightarrow> nat \<Rightarrow> jmatch option" where
  "exec_from re [] i =
     (case rmatch re [] i \<lparr>opened = [], closed = []\<rparr> of
        Some (e, c) \<Rightarrow> Some \<lparr>m_start = i, m_end = e, m_closed = closed c\<rparr>
      | None \<Rightarrow> None)"
| "exec_from re (x # xs) i =
     (case rmatch re (x # xs) i \<lparr>opened = [], closed = []\<rparr> of
        Some (e, c) \<Rightarrow> Some \<lparr>m_start = i, m_end = e, m_closed = closed c\<rparr>
      | None \<Rightarrow> exec_from re xs (Suc i))"

definition rexec :: "node list \<Rightarrow> jstring \<Rightarrow> jmatch option" where
  "rexec re s = exec_from re s 0"

definition rtest :: "node list \<Rightarrow> jstring \<Rightarrow> bool" where
  "rtest re s = (rexec re s \<noteq> None)"

definition substr :: "jstring \<Rightarrow> nat \<Rightarrow> nat \<Rightarrow> jstring" where
  "substr s b e = take (e - b) (drop b s)"

text \<open>The text of capture group \<open>g\<close> of a match on \<open>s\<close>; \<open>None\<close> is \<open>undefined\<close>.\<close>

definition grp :: "jstring \<Rightarrow> jmatch \<Rightarrow> nat \<Rightarrow> jstring option" where
  "grp s mt g = (case map_of (m_closed mt) g of None \<Rightarrow> None | Some (b, e) \<Rightarrow> Some (substr s b e))"


lemma rmatch_bounds:
  "rmatch r s i c = Some (e, c') \<Longrightarrow> i \<le> e \<and> e \<le> i + length s"
proof (induction r s i c arbitrary: e c' rule: rmatch.induct)
  case (1 s i c)
  then show ?case by simp
next
  case (2 l r s i c)
  from "2.prems" obtain s' where sp: "strip_prefix l s = Some s'"
    and m: "rmatch r s' (i + length l) c = Some (e, c')"
    by (auto split: option.splits)
  from "2.IH"[OF sp m] strip_prefix_consumes[OF sp] show ?case by simp
next
  case (3 k r s i c)
  from "3.prems" obtain x xs where s: "s = x # xs" and k: "cls_mem k x"
    and m: "rmatch r xs (Suc i) c = Some (e, c')"
    by (auto split: list.splits if_splits)
  from "3.IH"[OF s k m] s show ?case by simp
next
  case (4 k r s i c)
  show ?case
  proof (cases s)
    case Nil
    with "4.prems" have "rmatch r s i c = Some (e, c')" by simp
    from "4.IH"(1)[OF Nil this] show ?thesis .
  next
    case (Cons x xs)
    show ?thesis
    proof (cases "cls_mem k x")
      case True
      show ?thesis
      proof (cases "rmatch (Star k # r) xs (Suc i) c")
        case None
        with "4.prems" Cons True have "rmatch r s i c = Some (e, c')" by simp
        from "4.IH"(3)[OF Cons True None this] show ?thesis .
      next
        case (Some res)
        with "4.prems" Cons True have "rmatch (Star k # r) xs (Suc i) c = Some (e, c')" by simp
        from "4.IH"(2)[OF Cons True this] Cons show ?thesis by simp
      qed
    next
      case False
      with "4.prems" Cons have "rmatch r s i c = Some (e, c')" by simp
      from "4.IH"(4)[OF Cons False this] show ?thesis .
    qed
  qed
next
  case (5 k r s i c)
  show ?case
  proof (cases "rmatch r s i c")
    case (Some res)
    with "5.prems" have "rmatch r s i c = Some (e, c')" by simp
    from "5.IH"(1)[OF this] show ?thesis .
  next
    case None
    with "5.prems" obtain x xs where s: "s = x # xs" and k: "cls_mem k x"
      and m: "rmatch (LazyStar k # r) xs (Suc i) c = Some (e, c')"
      by (auto split: list.splits if_splits)
    from "5.IH"(2)[OF None s k m] s show ?thesis by simp
  qed
next
  case (6 a b r s i c)
  let ?first = "case strip_prefix a s of None \<Rightarrow> None
                | Some s' \<Rightarrow> rmatch r s' (i + length a) c"
  show ?case
  proof (cases ?first)
    case (Some res)
    with "6.prems" obtain s' where sp: "strip_prefix a s = Some s'"
      and m: "rmatch r s' (i + length a) c = Some (e, c')"
      by (auto split: option.splits)
    from "6.IH"(1)[OF sp m] strip_prefix_consumes[OF sp] show ?thesis by simp
  next
    case None
    with "6.prems" obtain s' where sp: "strip_prefix b s = Some s'"
      and m: "rmatch r s' (i + length b) c = Some (e, c')"
      by (auto split: option.splits)
    from "6.IH"(2)[OF None sp m] strip_prefix_consumes[OF sp] show ?thesis by simp
  qed
next
  case (7 g r s i c)
  from "7.prems" "7.IH" show ?case by simp
next
  case (8 g r s i c)
  from "8.prems" "8.IH" show ?case by (auto split: option.splits)
next
  case (9 r s i c)
  from "9.prems" "9.IH" show ?case by (auto split: if_splits)
next
  case (10 r s i c)
  from "10.prems" "10.IH" show ?case by (auto split: if_splits)
qed

lemma exec_from_bounds:
  "exec_from re s i = Some mt \<Longrightarrow> i \<le> m_start mt \<and> m_start mt \<le> m_end mt \<and> m_end mt \<le> i + length s"
proof (induction re s i rule: exec_from.induct)
  case (1 re i)
  then show ?case by (auto split: option.splits dest: rmatch_bounds)
next
  case (2 re x xs i)
  then show ?case by (fastforce split: option.splits dest: rmatch_bounds)
qed

text \<open>
  \<open>String.prototype.replace\<close> with a pattern and a replacement text that holds no
  \<open>$\<close>: without the \<open>g\<close> flag the first match is replaced; with it every match is,
  the search resuming at the end of the last match (one code unit further after an empty
  match, that unit being kept).
\<close>

definition replace_first :: "node list \<Rightarrow> jstring \<Rightarrow> jstring \<Rightarrow> jstring" where
  "replace_first re rep s =
     (case rexec re s of
        None \<Rightarrow> s
      | Some mt \<Rightarrow> take (m_start mt) s @ rep @ drop (m_end mt) s)"

function replace_from :: "node list \<Rightarrow> jstring \<Rightarrow> jstring \<Rightarrow> nat \<Rightarrow> jstring" where
  "replace_from re rep s i =
     (case exec_from re (drop i s) i of
        None \<Rightarrow> drop i s
      | Some mt \<Rightarrow>
          substr s i (m_start mt) @ rep @
          (if m_end mt = m_start mt
           then (if m_start mt < length s
                 then s ! m_start mt # replace_from re rep s (Suc (m_start mt))
                 else [])
           else replace_from re rep s (m_end mt)))"
  by pat_completeness auto
termination
proof (relation "measure (\<lambda>(re, rep, s, i). Suc (length s) - i)", goal_cases)
  case 1
  then show ?case by simp
next
  case (2 re rep s i mt)
  then show ?case using exec_from_bounds[of re "drop i s" i mt] by auto
next
  case (3 re rep s i mt)
  then show ?case using exec_from_bounds[of re "drop i s" i mt] by auto
qed

definition replace_all :: "node list \<Rightarrow> jstring \<Rightarrow> jstring \<Rightarrow> jstring" where
  "replace_all re rep s = replace_from re rep s 0"

subsection \<open>String methods\<close>

definition trim :: "jstring \<Rightarrow> jstring" where
  "trim s = rev (dropWhile is_space (rev (dropWhile is_space s)))"

definition startsWith :: "jstring \<Rightarrow> jstring \<Rightarrow> bool" where
  "startsWith s p = (strip_prefix p s \<noteq> None)"

fun includes_str :: "jstring \<Rightarrow> jstring \<Rightarrow> bool" where
  "includes_str [] p = (p = [])"
| "includes_str (x # xs) p = (startsWith (x # xs) p \<or> includes_str xs p)"

text \<open>\<open>s.split('\n')\<close>: the empty string gives one empty line.\<close>

fun split_lines :: "jstring \<Rightarrow> jstring list" where
  "split_lines [] = [[]]"
| "split_lines (c # cs) =
     (if c = 10 then [] # split_lines cs
      else (case split_lines cs of l # ls \<Rightarrow> (c # l) # ls | [] \<Rightarrow> [[c]]))"

text \<open>\<open>join\<close> of an array of strings.\<close>

fun join :: "jstring \<Rightarrow> jstring list \<Rightarrow> jstring" where
  "join sep [] = []"
| "join sep [x] = x"
| "join sep (x # y # ys) = x @ sep @ join sep (y # ys)"

text \<open>
  \<open>toLowerCase\<close>, on the letters of ASCII. The parsers call it on the text of a group
  that matched \<open>FUNCTION\<close> or \<open>CLASS\<close> only.
\<close>

definition toLowerCase :: "jstring \<Rightarrow> jstring" where
  "toLowerCase s = map (\<lambda>c. if 65 \<le> c \<and> c \<le> 90 then c + 32 else c) s"

subsection \<open>Numbers\<close>

text \<open>
  A number of JavaScript is an IEEE 754 double: NaN, an infinity (\<open>Infinity True\<close> is the
  negative one), the negative zero, or a finite value, which is kept as the rational it
  denotes (\<open>Num 0\<close> is the positive zero).
\<close>

datatype jsnum = NaN | Infinity bool | NegZero | Num rat

text \<open>The number of binary digits of a natural number.\<close>

fun bitlen :: "nat \<Rightarrow> nat" where
  "bitlen n = (if n = 0 then 0 else Suc (bitlen (n div 2)))"

declare bitlen.simps [simp del]

text \<open>The integer nearest to \<open>a / b\<close>, the even one of two that are equally near.\<close>

definition round_half_even :: "nat \<Rightarrow> nat \<Rightarrow> nat" where
  "round_half_even a b =
     (let q = a div b; r = a mod b
      in if 2 * r < b then q else if b < 2 * r then Suc q else if even q then q else Suc q)"

text \<open>
  The double nearest to \<open>a / b\<close> (for \<open>0 < b\<close>), ties to even: with \<open>e\<close> the binary
  exponent of \<open>a / b\<close>, the value is rounded to a multiple of \<open>2 ^ (e - 52)\<close>, or of
  \<open>2 ^ (- 1074)\<close> below the normal range; what rounds to \<open>2 ^ 1024\<close> or lies above it is
  Infinity.
\<close>

definition to_double :: "nat \<Rightarrow> nat \<Rightarrow> jsnum" where
  "to_double a b =
     (if a = 0 then Num 0
      else
        (let e0 = int (bitlen a) - int (bitlen b);
             e = (if a * 2 ^ nat (- e0) < b * 2 ^ nat e0 then e0 - 1 else e0);
             u = max e (- 1022) - 52;
             n = round_half_even (a * 2 ^ nat (- u)) (b * 2 ^ nat u)
         in if 1023 < e \<or> (e = 1023 \<and> n = 2 ^ 53) then Infinity False
            else Num (of_nat n * 2 powi u)))"

definition negate :: "jsnum \<Rightarrow> jsnum" where
  "negate v =
     (case v of
        NaN \<Rightarrow> NaN
      | Infinity neg \<Rightarrow> Infinity (\<not> neg)
      | NegZero \<Rightarrow> Num 0
      | Num q \<Rightarrow> if q = 0 then NegZero else Num (- q))"

definition digit_val :: "nat \<Rightarrow> nat" where
  "digit_val c =
     (if is_digit c then c - 48
      else if 97 \<le> c \<and> c \<le> 122 then c - 87
      else if 65 \<le> c \<and> c \<le> 90 then c - 55
      else 99)"

definition digits_val :: "nat \<Rightarrow> jstring \<Rightarrow> nat" where
  "digits_val radix ds = foldl (\<lambda>a d. a * radix + digit_val d) 0 ds"

text \<open>A sign: the text after it, and whether it was a minus.\<close>

fun read_sign :: "jstring \<Rightarrow> jstring \<times> bool" where
  "read_sign [] = ([], False)"
| "read_sign (c # cs) = (if c = 45 then (cs, True) else if c = 43 then (cs, False) else (c # cs, False))"

definition signed :: "bool \<Rightarrow> jsnum \<Rightarrow> jsnum" where
  "signed neg v = (if neg then negate v else v)"

text \<open>
  \<open>parseInt(s)\<close> with no radix: leading white space, a sign, \<open>0x\<close> or \<open>0X\<close> for
  radix 16, then the longest run of digits of the radix; NaN when that run is empty,
  else the double nearest to the integer read.
\<close>

definition parseInt :: "jstring \<Rightarrow> jsnum" where
  "parseInt s =
     (let (t, neg) = read_sign (dropWhile is_space s);
          hex = (startsWith t (ascii ''0x'') \<or> startsWith t (ascii ''0X''));
          radix = (if hex then 16 else 10);
          ds = takeWhile (\<lambda>c. digit_val c < radix) (if hex then drop 2 t else t)
      in if ds = [] then NaN else signed neg (to_double (digits_val radix ds) 1))"

text \<open>
  \<open>parseFloat(s)\<close>: leading white space, a sign, then \<open>Infinity\<close> or the longest
  decimal literal: digits, a fraction, an exponent (kept only when it has digits). The
  literal with the digits \<open>d\<close> before and \<open>f\<close> after the dot and the exponent \<open>x\<close>
  denotes \<open>df * 10 ^ (x - length f)\<close>; the result is the double nearest to it.
  (ECMAScript lets an engine drop the digits after the twentieth; V8, the engine of the
  extension host, rounds the exact value, and so does the model.)
\<close>

definition read_exponent :: "jstring \<Rightarrow> int" where
  "read_exponent s =
     (case s of
        [] \<Rightarrow> 0
      | c # cs \<Rightarrow>
          if c = 101 \<or> c = 69
          then (let (t, neg) = read_sign cs; ds = takeWhile is_digit t
                in if ds = [] then 0
                   else if neg then - int (digits_val 10 ds) else int (digits_val 10 ds))
          else 0)"

definition parseFloat :: "jstring \<Rightarrow> jsnum" where
  "parseFloat s =
     (let (t, neg) = read_sign (dropWhile is_space s)
      in if startsWith t (ascii ''Infinity'') then Infinity neg
         else
           (let ip = takeWhile is_digit t;
                t1 = dropWhile is_digit t;
                dot = (t1 \<noteq> [] \<and> hd t1 = 46);
                fp = (if dot then takeWhile is_digit (tl t1) else []);
                t2 = (if dot then dropWhile is_digit (tl t1) else t1);
                k = read_exponent t2 - int (length fp)
            in if ip = [] \<and> fp = [] then NaN
               else signed neg
                 (to_double (digits_val 10 (ip @ fp) * 10 ^ nat k) (10 ^ nat (- k)))))"


section \<open>The search-result parser\<close>

text \<open>
  Reading a property of \<open>undefined\<close> or \<open>null\<close>, or calling a method on it, throws a
  TypeError. It is the only exception these parsers could raise. The model raises it
  wherever the source reads a capture group that took no part in the match, and wherever
  it writes to a record variable that is \<open>null\<close>.
\<close>

datatype error = TypeError

definition need :: "'a option \<Rightarrow> ('a \<Rightarrow> error + 'b) \<Rightarrow> error + 'b" where
  "need x f = (case x of None \<Rightarrow> Inl TypeError | Some v \<Rightarrow> f v)"

text \<open>
  A result object. A field the source never assigned is \<open>None\<close>. The search parser
  leaves \<open>code_snippet\<close> unset; the RAG parser builds its sources from the same fields.
\<close>

record search_result =
  type :: jstring
  name :: jstring
  file_path :: "jstring option"
  start_line :: "jsnum option"
  end_line :: "jsnum option"
  similarity :: "jsnum option"
  docstring :: "jstring option"
  code_snippet :: "jstring option"

definition new_result :: "jstring \<Rightarrow> jstring \<Rightarrow> search_result" where
  "new_result t n =
     \<lparr>type = t, name = n, file_path = None, start_line = None, end_line = None,
      similarity = None, docstring = None, code_snippet = None\<rparr>"

text \<open>The patterns of \<open>parseSearchOutput\<close>, in the order of the source.\<close>

definition re_cr :: "node list" where
  \<comment> \<open>\<open>/\r/g\<close>\<close>
  "re_cr = [Lit [13]]"

definition re_header :: "node list" where
  \<comment> \<open>\<open>/(\d+)\.\s+(FUNCTION|CLASS):\s+(\w+)/\<close>\<close>
  "re_header =
     [Open 1, One Digit, Star Digit, Close 1, Lit (ascii ''.''), One Space, Star Space,
      Open 2, Alt (ascii ''FUNCTION'') (ascii ''CLASS''), Close 2, Lit (ascii '':''),
      One Space, Star Space, Open 3, One WordCh, Star WordCh, Close 3]"

definition re_file :: "node list" where
  \<comment> \<open>\<open>/PAGE\s+(.+?):(\d+)-(\d+)/\<close>\<close>
  "re_file =
     [Lit PAGE, One Space, Star Space, Open 1, One Dot, LazyStar Dot, Close 1,
      Lit (ascii '':''), Open 2, One Digit, Star Digit, Close 2, Lit (ascii ''-''),
      Open 3, One Digit, Star Digit, Close 3]"

definition re_trail :: "node list" where
  \<comment> \<open>\<open>/[VLR]+$/g\<close>, the class being the vertical border and the two bottom corners\<close>
  "re_trail =
     [One (OneOf [BOX_V, BOX_BL, BOX_BR]), Star (OneOf [BOX_V, BOX_BL, BOX_BR]), Eol]"

definition re_sim :: "node list" where
  \<comment> \<open>\<open>/CHART\s+Similarity:\s+([\d.]+)/\<close>\<close>
  "re_sim =
     [Lit CHART, One Space, Star Space, Lit (ascii ''Similarity:''), One Space, Star Space,
      Open 1, One DigitOrDot, Star DigitOrDot, Close 1]"

definition re_doc :: "node list" where
  \<comment> \<open>\<open>/MEMO\s+(.+)/\<close>\<close>
  "re_doc = [Lit MEMO, One Space, Star Space, Open 1, One Dot, Star Dot, Close 1]"

record search_state =
  results :: "search_result list"
  currentResult :: "search_result option"

text \<open>\<open>if (currentResult) results.push(currentResult)\<close>\<close>

definition push_current :: "search_state \<Rightarrow> search_result list" where
  "push_current st =
     (case currentResult st of None \<Rightarrow> results st | Some cur \<Rightarrow> results st @ [cur])"

text \<open>One turn of the loop of \<open>parseSearchOutput\<close>, on the line \<open>lines[i]\<close>.\<close>

definition search_step :: "jstring \<Rightarrow> search_state \<Rightarrow> error + search_state" where
  "search_step line st =
     (case rexec re_header line of
        Some headerMatch \<Rightarrow>
          need (grp line headerMatch 2) (\<lambda>g2.
          need (grp line headerMatch 3) (\<lambda>g3.
            Inr \<lparr>results = push_current st,
                 currentResult = Some (new_result (toLowerCase g2) g3)\<rparr>))
      | None \<Rightarrow>
          (case currentResult st of
             None \<Rightarrow> Inr st
           | Some cur \<Rightarrow>
               (case rexec re_file line of
                  Some fileMatch \<Rightarrow>
                    need (grp line fileMatch 1) (\<lambda>g1.
                    need (grp line fileMatch 2) (\<lambda>g2.
                    need (grp line fileMatch 3) (\<lambda>g3.
                      Inr (st\<lparr>currentResult := Some (cur
                             \<lparr>file_path := Some (trim (replace_all re_trail [] (trim g1))),
                              start_line := Some (parseInt g2),
                              end_line := Some (parseInt g3)\<rparr>)\<rparr>))))
                | None \<Rightarrow>
                    (case rexec re_sim line of
                       Some simMatch \<Rightarrow>
                         need (grp line simMatch 1) (\<lambda>g1.
                           Inr (st\<lparr>currentResult :=
                                  Some (cur\<lparr>similarity := Some (parseFloat g1)\<rparr>)\<rparr>))
                     | None \<Rightarrow>
                         (case rexec re_doc line of
                            Some docMatch \<Rightarrow>
                              need (grp line docMatch 1) (\<lambda>g1.
                                Inr (st\<lparr>currentResult := Some (cur
                                       \<lparr>docstring :=
                                          Some (trim (replace_all re_trail [] (trim g1)))\<rparr>)\<rparr>))
                          | None \<Rightarrow> Inr st)))))"

fun search_loop :: "jstring list \<Rightarrow> search_state \<Rightarrow> error + search_state" where
  "search_loop [] st = Inr st"
| "search_loop (line # rest) st =
     (case search_step line st of Inl e \<Rightarrow> Inl e | Inr st' \<Rightarrow> search_loop rest st')"

definition parseSearchOutput :: "jstring \<Rightarrow> error + search_result list" where
  "parseSearchOutput output =
     (case search_loop (split_lines (replace_all re_cr [] output))
             \<lparr>results = [], currentResult = None\<rparr> of
        Inl e \<Rightarrow> Inl e
      | Inr st \<Rightarrow> Inr (push_current st))"


section \<open>The RAG parser\<close>

text \<open>The patterns of \<open>parseRagOutput\<close>, in the order of the source.\<close>

definition re_boxStart :: "node list" where
  \<comment> \<open>\<open>/^TL[H]+\s*(\d+)\.\s+(FUNCTION|CLASS):\s+(.+?)\s+[H]+TR/\<close>\<close>
  "re_boxStart =
     [Bol, Lit [BOX_TL], One (OneOf [BOX_H]), Star (OneOf [BOX_H]), Star Space,
      Open 1, One Digit, Star Digit, Close 1, Lit (ascii ''.''), One Space, Star Space,
      Open 2, Alt (ascii ''FUNCTION'') (ascii ''CLASS''), Close 2, Lit (ascii '':''),
      One Space, Star Space, Open 3, One Dot, LazyStar Dot, Close 3, One Space, Star Space,
      One (OneOf [BOX_H]), Star (OneOf [BOX_H]), Lit [BOX_TR]]"

definition re_pathMarker :: "node list" where
  \<comment> \<open>\<open>/V\s*PAGE\s*(.+?)\s*V/\<close>\<close>
  "re_pathMarker =
     [Lit [BOX_V], Star Space, Lit PAGE, Star Space, Open 1, One Dot, LazyStar Dot, Close 1,
      Star Space, Lit [BOX_V]]"

definition re_pathLine :: "node list" where
  \<comment> \<open>\<open>/V\s*(.+?)\s*V/\<close>\<close>
  "re_pathLine =
     [Lit [BOX_V], Star Space, Open 1, One Dot, LazyStar Dot, Close 1, Star Space, Lit [BOX_V]]"

definition re_border :: "node list" where
  \<comment> \<open>\<open>/^[H TL TR BL BR]+$/\<close>\<close>
  "re_border =
     [Bol, One (OneOf [BOX_H, BOX_TL, BOX_TR, BOX_BL, BOX_BR]),
      Star (OneOf [BOX_H, BOX_TL, BOX_TR, BOX_BL, BOX_BR]), Eol]"

definition re_complete :: "node list" where
  \<comment> \<open>\<open>/(.+?):(\d+)-(\d+)/\<close>\<close>
  "re_complete =
     [Open 1, One Dot, LazyStar Dot, Close 1, Lit (ascii '':''), Open 2, One Digit, Star Digit,
      Close 2, Lit (ascii ''-''), Open 3, One Digit, Star Digit, Close 3]"

definition re_ragSim :: "node list" where
  \<comment> \<open>\<open>/V\s*CHART\s+Similarity:\s+([\d.]+)\s*V/\<close>\<close>
  "re_ragSim =
     [Lit [BOX_V], Star Space, Lit CHART, One Space, Star Space, Lit (ascii ''Similarity:''),
      One Space, Star Space, Open 1, One DigitOrDot, Star DigitOrDot, Close 1, Star Space,
      Lit [BOX_V]]"

definition re_ragDoc :: "node list" where
  \<comment> \<open>\<open>/V\s*MEMO\s+(.+?)\s*V/\<close>\<close>
  "re_ragDoc =
     [Lit [BOX_V], Star Space, Lit MEMO, One Space, Star Space, Open 1, One Dot, LazyStar Dot,
      Close 1, Star Space, Lit [BOX_V]]"

definition re_boxEnd :: "node list" where
  \<comment> \<open>\<open>/^BL[H]+BR/\<close>\<close>
  "re_boxEnd = [Bol, Lit [BOX_BL], One (OneOf [BOX_H]), Star (OneOf [BOX_H]), Lit [BOX_BR]]"

definition re_boxTop :: "node list" where
  \<comment> \<open>\<open>/^TL[H]+/\<close>\<close>
  "re_boxTop = [Bol, Lit [BOX_TL], One (OneOf [BOX_H]), Star (OneOf [BOX_H])]"

definition re_lead :: "node list" where
  \<comment> \<open>\<open>/^V\s*/\<close>\<close>
  "re_lead = [Bol, Lit [BOX_V], Star Space]"

definition re_tail :: "node list" where
  \<comment> \<open>\<open>/\s*V$/\<close>\<close>
  "re_tail = [Star Space, Lit [BOX_V], Eol]"

text \<open>The local variables of \<open>parseRagOutput\<close>.\<close>

record rag_state =
  answer :: jstring
  sources :: "search_result list"
  currentSource :: "search_result option"
  inAnswerSection :: bool
  inSourcesSection :: bool
  inSourceBox :: bool
  collectingCode :: bool
  codeLines :: "jstring list"
  collectingFilePath :: bool
  filePathLines :: "jstring list"

text \<open>
  \<open>if (codeLines.length > 0) currentSource.code_snippet = codeLines.join('\n')\<close>
\<close>

definition attach_code :: "search_result \<Rightarrow> jstring list \<Rightarrow> search_result" where
  "attach_code cur cl = (if cl \<noteq> [] then cur\<lparr>code_snippet := Some (join [10] cl)\<rparr> else cur)"

text \<open>
  Every branch of the loop body gives the new state and whether the line is to be read
  again (the source's \<open>i--\<close> before \<open>continue\<close>).

  The branch of a line that matched the box-start pattern:
\<close>

definition rag_box_start :: "jstring \<Rightarrow> jmatch \<Rightarrow> rag_state \<Rightarrow> error + rag_state \<times> bool" where
  "rag_box_start line boxStartMatch st =
     (let st1 =
        (case currentSource st of
           Some cur \<Rightarrow>
             if collectingCode st
             then st\<lparr>sources := sources st @ [attach_code cur (codeLines st)],
                     codeLines := [], collectingCode := False\<rparr>
             else st
         | None \<Rightarrow> st)
      in need (grp line boxStartMatch 2) (\<lambda>g2.
         need (grp line boxStartMatch 3) (\<lambda>g3.
           Inr (st1\<lparr>currentSource := Some (new_result (toLowerCase g2) (trim g3)),
                    inSourceBox := True, collectingFilePath := False, filePathLines := []\<rparr>,
                False))))"

text \<open>\<open>if (collectingCode && !inSourceBox) { ... }\<close>, then the final \<open>continue\<close>.\<close>

definition rag_code :: "jstring \<Rightarrow> jstring \<Rightarrow> rag_state \<Rightarrow> error + rag_state \<times> bool" where
  "rag_code line trimmed st =
     (if collectingCode st \<and> \<not> inSourceBox st
      then
        if rtest re_boxTop line \<or> (trimmed = [] \<and> codeLines st \<noteq> [])
        then
          if rtest re_boxTop line
          then Inr ((case currentSource st of
                       Some cur \<Rightarrow>
                         st\<lparr>sources := sources st @ [attach_code cur (codeLines st)],
                            codeLines := [], collectingCode := False, currentSource := None\<rparr>
                     | None \<Rightarrow> st),
                    True)
          else Inr (st, False)
        else if trimmed \<noteq> [] then Inr (st\<lparr>codeLines := codeLines st @ [line]\<rparr>, False)
        else Inr (st, False)
      else Inr (st, False))"

text \<open>\<open>if (inSourceBox) { ... }\<close>; a line no branch takes falls through to \<open>rag_code\<close>.\<close>

definition rag_box :: "jstring \<Rightarrow> jstring \<Rightarrow> rag_state \<Rightarrow> error + rag_state \<times> bool" where
  "rag_box line trimmed st =
     (if includes_str line PAGE \<and> \<not> collectingFilePath st
      then
        (case rexec re_pathMarker line of
           Some pathMatch \<Rightarrow>
             need (grp line pathMatch 1) (\<lambda>g1.
               let pathContent = trim g1
               in Inr (st\<lparr>collectingFilePath := True,
                          filePathLines :=
                            (if pathContent \<noteq> [] then filePathLines st @ [pathContent]
                             else filePathLines st)\<rparr>,
                       False))
         | None \<Rightarrow> Inr (st\<lparr>collectingFilePath := True\<rparr>, False))
      else if collectingFilePath st
      then
        (case rexec re_pathLine line of
           Some pathLineMatch \<Rightarrow>
             need (grp line pathLineMatch 1) (\<lambda>g1.
               let content = trim g1
               in if content \<noteq> [] \<and> \<not> rtest re_border content
                     \<and> \<not> includes_str content CHART \<and> \<not> includes_str content MEMO
                  then
                    (let fpl = filePathLines st @ [content];
                         fullPath = concat fpl
                     in case rexec re_complete fullPath of
                          Some completeMatch \<Rightarrow>
                            (case currentSource st of
                               None \<Rightarrow> Inl TypeError
                             | Some cur \<Rightarrow>
                                 need (grp fullPath completeMatch 1) (\<lambda>c1.
                                 need (grp fullPath completeMatch 2) (\<lambda>c2.
                                 need (grp fullPath completeMatch 3) (\<lambda>c3.
                                   Inr (st\<lparr>currentSource := Some (cur
                                            \<lparr>file_path := Some (trim c1),
                                             start_line := Some (parseInt c2),
                                             end_line := Some (parseInt c3)\<rparr>),
                                           collectingFilePath := False,
                                           filePathLines := []\<rparr>,
                                        False)))))
                        | None \<Rightarrow> Inr (st\<lparr>filePathLines := fpl\<rparr>, False))
                  else Inr (st, False))
         | None \<Rightarrow> Inr (st, False))
      else
        (case (rexec re_ragSim line, currentSource st) of
           (Some simMatch, Some cur) \<Rightarrow>
             need (grp line simMatch 1) (\<lambda>g1.
               Inr (st\<lparr>currentSource := Some (cur\<lparr>similarity := Some (parseFloat g1)\<rparr>)\<rparr>,
                    False))
         | _ \<Rightarrow>
             (case (rexec re_ragDoc line, currentSource st) of
                (Some docMatch, Some cur) \<Rightarrow>
                  need (grp line docMatch 1) (\<lambda>g1.
                    Inr (st\<lparr>currentSource := Some (cur\<lparr>docstring := Some (trim g1)\<rparr>)\<rparr>,
                         False))
              | _ \<Rightarrow>
                  if rtest re_boxEnd line
                  then Inr (st\<lparr>inSourceBox := False, collectingCode := True,
                               collectingFilePath := False\<rparr>,
                            False)
                  else rag_code line trimmed st)))"

text \<open>\<open>if (inSourcesSection) { ... continue; }\<close>\<close>

definition rag_sources :: "jstring \<Rightarrow> jstring \<Rightarrow> rag_state \<Rightarrow> error + rag_state \<times> bool" where
  "rag_sources line trimmed st =
     (case rexec re_boxStart line of
        Some boxStartMatch \<Rightarrow> rag_box_start line boxStartMatch st
      | None \<Rightarrow> if inSourceBox st then rag_box line trimmed st else rag_code line trimmed st)"

text \<open>\<open>if (inAnswerSection && !inSourcesSection) { ... }\<close>, the last statement of the body.\<close>

definition rag_answer :: "jstring \<Rightarrow> rag_state \<Rightarrow> error + rag_state \<times> bool" where
  "rag_answer line st =
     (if inAnswerSection st \<and> \<not> inSourcesSection st
      then
        (let content = trim (replace_first re_tail [] (replace_first re_lead [] line));
             st1 = (if content \<noteq> [] \<and> \<not> rtest re_border content
                       \<and> content \<noteq> ascii ''Answer:''
                    then st\<lparr>answer := answer st @ content @ ascii '' ''\<rparr>
                    else st)
         in Inr (if rtest re_boxEnd line then st1\<lparr>inAnswerSection := False\<rparr> else st1, False))
      else Inr (st, False))"

text \<open>The body of the loop of \<open>parseRagOutput\<close>, on the line \<open>lines[i]\<close>.\<close>

definition rag_step :: "jstring \<Rightarrow> rag_state \<Rightarrow> error + rag_state \<times> bool" where
  "rag_step line st =
     (let trimmed = trim line
      in if trimmed = [] \<and> \<not> collectingCode st then Inr (st, False)
         else if (includes_str trimmed BULB \<or> includes_str trimmed (ascii ''Answer:''))
                 \<and> \<not> inSourcesSection st
         then Inr (st\<lparr>inAnswerSection := True\<rparr>, False)
         else if startsWith trimmed (ascii ''Code Search - RAG Mode Query:'')
                 \<or> startsWith trimmed (ascii ''Query:'')
         then Inr (st, False)
         else if includes_str trimmed (ascii ''Supporting Sources'')
         then Inr (st\<lparr>inAnswerSection := False, inSourcesSection := True\<rparr>, False)
         else if inSourcesSection st then rag_sources line trimmed st
         else rag_answer line st)"

text \<open>
  The loop \<open>for (let i = 0; i < lines.length; i++)\<close> on the lines from \<open>i\<close> on. A body
  that asked for the line again leaves \<open>i\<close> where it is. Nothing in the loop itself bounds
  the number of turns on one line, so the loop is a partial function: \<open>None\<close> is a run
  that never ends.
\<close>

partial_function (option) rag_loop :: "jstring list \<Rightarrow> rag_state \<Rightarrow> (error + rag_state) option" where
  "rag_loop ls st =
     (case ls of
        [] \<Rightarrow> Some (Inr st)
      | line # rest \<Rightarrow>
          (case rag_step line st of
             Inl e \<Rightarrow> Some (Inl e)
           | Inr (st', again) \<Rightarrow> if again then rag_loop (line # rest) st' else rag_loop rest st'))"

definition rag_init :: rag_state where
  "rag_init =
     \<lparr>answer = [], sources = [], currentSource = None, inAnswerSection = False,
      inSourcesSection = False, inSourceBox = False, collectingCode = False, codeLines = [],
      collectingFilePath = False, filePathLines = []\<rparr>"

text \<open>
  After the loop: \<open>if (currentSource && currentSource.file_path)\<close> pushes the last
  source (a file path that is the empty string is falsy), and the answer is trimmed.
  The result is the object \<open>{ answer, sources }\<close>, as a pair.
\<close>

definition rag_finish :: "rag_state \<Rightarrow> jstring \<times> search_result list" where
  "rag_finish st =
     (trim (answer st),
      (case currentSource st of
         None \<Rightarrow> sources st
       | Some cur \<Rightarrow>
           (case file_path cur of
              None \<Rightarrow> sources st
            | Some fp \<Rightarrow>
                if fp \<noteq> [] then sources st @ [attach_code cur (codeLines st)]
                else sources st)))"

definition parseRagOutput :: "jstring \<Rightarrow> (error + jstring \<times> search_result list) option" where
  "parseRagOutput output =
     (case rag_loop (split_lines (replace_all re_cr [] output)) rag_init of
        None \<Rightarrow> None
      | Some (Inl e) \<Rightarrow> Some (Inl e)
      | Some (Inr st) \<Rightarrow> Some (Inr (rag_finish st)))"


section \<open>The PR-summary parser\<close>

text \<open>The patterns of \<open>_parsePRSummary\<close>, in the order of the source.\<close>

definition re_sep :: "node list" where
  \<comment> \<open>\<open>/^=+$/\<close>\<close>
  "re_sep = [Bol, One (OneOf [61]), Star (OneOf [61]), Eol]"

definition re_commit :: "node list" where
  \<comment> \<open>\<open>/^BULLET\s+[0-9a-f]{8}\s+-/\<close>\<close>
  "re_commit =
     [Bol, Lit [BULLET], One Space, Star Space,
      One HexLower, One HexLower, One HexLower, One HexLower,
      One HexLower, One HexLower, One HexLower, One HexLower,
      One Space, Star Space, Lit (ascii ''-'')]"

definition re_fileTop :: "node list" where
  \<comment> \<open>\<open>/^TL.*DIAMOND\s+(.+?)\s+H*TR/\<close>\<close>
  "re_fileTop =
     [Bol, Lit [BOX_TL], Star Dot, Lit DIAMOND, One Space, Star Space, Open 1, One Dot,
      LazyStar Dot, Close 1, One Space, Star Space, Star (OneOf [BOX_H]), Lit [BOX_TR]]"

definition re_fileName :: "node list" where
  \<comment> \<open>\<open>/DIAMOND\s+(.+?)\s+H/\<close>\<close>
  "re_fileName =
     [Lit DIAMOND, One Space, Star Space, Open 1, One Dot, LazyStar Dot, Close 1, One Space,
      Star Space, Lit [BOX_H]]"

definition re_leadV :: "node list" where
  \<comment> \<open>\<open>/^V/\<close>\<close>
  "re_leadV = [Bol, Lit [BOX_V]]"

definition re_leadBL :: "node list" where
  \<comment> \<open>\<open>/^BL/\<close>\<close>
  "re_leadBL = [Bol, Lit [BOX_BL]]"

definition re_boxOnly :: "node list" where
  \<comment> \<open>\<open>/^[TL BL H V]+$/\<close>\<close>
  "re_boxOnly =
     [Bol, One (OneOf [BOX_TL, BOX_BL, BOX_H, BOX_V]),
      Star (OneOf [BOX_TL, BOX_BL, BOX_H, BOX_V]), Eol]"

definition re_progress :: "node list" where
  \<comment> \<open>\<open>/^\[\d+\/\d+\]/\<close>\<close>
  "re_progress =
     [Bol, Lit (ascii ''[''), One Digit, Star Digit, Lit (ascii ''/''), One Digit, Star Digit,
      Lit (ascii '']'')]"

text \<open>The object \<open>result\<close> that \<open>_parsePRSummary\<close> builds and returns.\<close>

record pr_meta =
  branch :: jstring
  commits :: jsnum
  changedFiles :: jsnum

record file_change =
  filename :: jstring
  content :: jstring

record pr_summary =
  meta :: pr_meta
  commitHistory :: "jstring list"
  fileChanges :: "file_change list"
  overallSummary :: jstring
  pipelineInfo :: jstring
  warnings :: "jstring list"

text \<open>The values of the string variable \<open>currentSection\<close>.\<close>

datatype pr_section = Header | FileChange | Between | OverallSummary | Pipeline

text \<open>The local variables of \<open>_parsePRSummary\<close>.\<close>

record pr_state =
  result :: pr_summary
  currentSection :: pr_section
  currentFileChange :: "file_change option"
  fileChangeContent :: jstring

text \<open>\<open>x || 0\<close> on a number: NaN and the two zeros are falsy.\<close>

definition or_zero :: "jsnum \<Rightarrow> jsnum" where
  "or_zero n = (case n of NaN \<Rightarrow> Num 0 | NegZero \<Rightarrow> Num 0 | _ \<Rightarrow> n)"

text \<open>
  \<open>if (currentFileChange) { currentFileChange.content = fileChangeContent.trim();
  result.fileChanges.push(currentFileChange); }\<close>
\<close>

definition push_file_change :: "pr_state \<Rightarrow> pr_summary" where
  "push_file_change st =
     (case currentFileChange st of
        None \<Rightarrow> result st
      | Some cfc \<Rightarrow>
          (result st)\<lparr>fileChanges :=
             fileChanges (result st) @ [cfc\<lparr>content := trim (fileChangeContent st)\<rparr>]\<rparr>)"

text \<open>The body of the loop of \<open>_parsePRSummary\<close>, on the line \<open>lines[i]\<close>.\<close>

definition pr_step :: "jstring \<Rightarrow> pr_state \<Rightarrow> error + pr_state" where
  "pr_step line st =
     (let trimmed = trim line
      in if trimmed = [] \<or> rtest re_sep trimmed then Inr st
         else if startsWith trimmed (ascii ''Branch:'')
         then Inr (st\<lparr>result := (result st)\<lparr>meta := (meta (result st))
                      \<lparr>branch := trim (drop 7 trimmed)\<rparr>\<rparr>\<rparr>)
         else if startsWith trimmed (ascii ''Commits:'')
         then Inr (st\<lparr>result := (result st)\<lparr>meta := (meta (result st))
                      \<lparr>commits := or_zero (parseInt (trim (drop 8 trimmed)))\<rparr>\<rparr>\<rparr>)
         else if startsWith trimmed (ascii ''Changed files:'')
         then Inr (st\<lparr>result := (result st)\<lparr>meta := (meta (result st))
                      \<lparr>changedFiles := or_zero (parseInt (trim (drop 14 trimmed)))\<rparr>\<rparr>\<rparr>)
         else if rtest re_commit trimmed
         then Inr (st\<lparr>result := (result st)
                      \<lparr>commitHistory := commitHistory (result st) @ [trimmed]\<rparr>\<rparr>)
         else if rtest re_fileTop trimmed
         then
           (let res1 = push_file_change st
            in case rexec re_fileName trimmed of
                 Some fileMatch \<Rightarrow>
                   need (grp trimmed fileMatch 1) (\<lambda>g1.
                     Inr (st\<lparr>result := res1,
                             currentFileChange := Some \<lparr>filename = trim g1, content = []\<rparr>,
                             fileChangeContent := [], currentSection := FileChange\<rparr>))
               | None \<Rightarrow>
                   Inr (st\<lparr>result := res1,
                           currentFileChange :=
                             Some \<lparr>filename = ascii ''Unknown file'', content = []\<rparr>,
                           fileChangeContent := [], currentSection := FileChange\<rparr>))
         else if currentSection st = FileChange \<and> rtest re_leadV line
         then
           (let content = trim (replace_first re_tail [] (replace_first re_lead [] line))
            in Inr (if content \<noteq> []
                    then st\<lparr>fileChangeContent := fileChangeContent st @ content @ ascii '' ''\<rparr>
                    else st))
         else if currentSection st = FileChange \<and> rtest re_leadBL line
         then
           Inr ((case currentFileChange st of
                   Some cfc \<Rightarrow>
                     st\<lparr>result := push_file_change st, currentFileChange := None,
                        fileChangeContent := []\<rparr>
                 | None \<Rightarrow> st)\<lparr>currentSection := Between\<rparr>)
         else if startsWith trimmed (MEMO @ ascii '' Overall PR Summary:'')
         then Inr (st\<lparr>currentSection := OverallSummary\<rparr>)
         else if currentSection st = OverallSummary \<and> trimmed \<noteq> []
                 \<and> \<not> rtest re_boxOnly trimmed
         then Inr (st\<lparr>result := (result st)
                      \<lparr>overallSummary := overallSummary (result st) @ trimmed @ ascii '' ''\<rparr>\<rparr>)
         else if includes_str trimmed (ascii ''PR SUMMARIZATION PIPELINE'')
                 \<or> rtest re_progress trimmed
         then Inr (st\<lparr>currentSection := Pipeline,
                      result := (result st)
                        \<lparr>pipelineInfo := pipelineInfo (result st) @ trimmed @ [10]\<rparr>\<rparr>)
         else if currentSection st = Pipeline
         then Inr (st\<lparr>result := (result st)
                      \<lparr>pipelineInfo := pipelineInfo (result st) @ trimmed @ [10]\<rparr>\<rparr>)
         else if startsWith trimmed WARNING
         then Inr (st\<lparr>result := (result st)
                      \<lparr>warnings := warnings (result st) @ [trimmed]\<rparr>\<rparr>)
         else Inr st)"

fun pr_loop :: "jstring list \<Rightarrow> pr_state \<Rightarrow> error + pr_state" where
  "pr_loop [] st = Inr st"
| "pr_loop (line # rest) st =
     (case pr_step line st of Inl e \<Rightarrow> Inl e | Inr st' \<Rightarrow> pr_loop rest st')"

definition pr_init :: pr_state where
  "pr_init =
     \<lparr>result =
        \<lparr>meta = \<lparr>branch = [], commits = Num 0, changedFiles = Num 0\<rparr>,
         commitHistory = [], fileChanges = [], overallSummary = [], pipelineInfo = [],
         warnings = []\<rparr>,
      currentSection = Header, currentFileChange = None, fileChangeContent = []\<rparr>"

text \<open>After the loop the two accumulated texts are trimmed.\<close>

definition pr_finish :: "pr_state \<Rightarrow> pr_summary" where
  "pr_finish st =
     (result st)\<lparr>overallSummary := trim (overallSummary (result st)),
                 pipelineInfo := trim (pipelineInfo (result st))\<rparr>"

definition parsePRSummary :: "jstring \<Rightarrow> error + pr_summary" where
  "parsePRSummary summary =
     (case pr_loop (split_lines summary) pr_init of
        Inl e \<Rightarrow> Inl e
      | Inr st \<Rightarrow> Inr (pr_finish st))"

section \<open>Properties\<close>

text \<open>
  The predicates and the measures that the statements about the parsers use. All of
  them are computed from the model above.
\<close>

subsection \<open>Patterns\<close>

text \<open>
  The groups of a pattern: every group that is closed has been opened before
  (\<open>well_grouped\<close>); the groups a pattern closes; a pattern without groups.
\<close>

fun well_grouped :: "nat list \<Rightarrow> node list \<Rightarrow> bool" where
  "well_grouped os [] = True"
| "well_grouped os (Open g # r) = well_grouped (g # os) r"
| "well_grouped os (Close g # r) = (g \<in> set os \<and> well_grouped os r)"
| "well_grouped os (n # r) = well_grouped os r"

fun closes :: "node list \<Rightarrow> nat list" where
  "closes [] = []"
| "closes (Close g # r) = g # closes r"
| "closes (n # r) = closes r"

fun no_groups :: "node list \<Rightarrow> bool" where
  "no_groups [] = True"
| "no_groups (Open g # r) = False"
| "no_groups (Close g # r) = False"
| "no_groups (n # r) = no_groups r"

text \<open>A character that is neither white space nor the vertical border.\<close>

definition plain :: "nat \<Rightarrow> bool" where
  "plain c = (\<not> is_space c \<and> c \<noteq> BOX_V)"

subsection \<open>Records\<close>

text \<open>The kind and the name that a header line carries, and those of a record.\<close>

definition header_of :: "jstring \<Rightarrow> (jstring \<times> jstring) option" where
  "header_of line =
     (case rexec re_header line of
        None \<Rightarrow> None
      | Some m \<Rightarrow>
          (case (grp line m 2, grp line m 3) of
             (Some g2, Some g3) \<Rightarrow> Some (toLowerCase g2, g3)
           | _ \<Rightarrow> None))"

definition kind_name :: "search_result \<Rightarrow> (jstring \<times> jstring) option" where
  "kind_name r = Some (type r, name r)"

text \<open>
  What \<open>parseFloat\<close> reads from a text that starts with a digit or a dot: NaN, the
  positive infinity, or a finite number that is not negative.
\<close>

definition nonneg_or_nan :: "jsnum \<Rightarrow> bool" where
  "nonneg_or_nan v =
     (case v of NaN \<Rightarrow> True | Infinity neg \<Rightarrow> \<not> neg | NegZero \<Rightarrow> False | Num q \<Rightarrow> 0 \<le> q)"

text \<open>
  The two properties of a record that every field assignment of the parsers keeps: the
  file path and the two line numbers are set together, and a similarity is what
  \<open>parseFloat\<close> read from digits and dots.
\<close>

definition path_fields_together :: "search_result \<Rightarrow> bool" where
  "path_fields_together r =
     ((file_path r = None) = (start_line r = None) \<and> (start_line r = None) = (end_line r = None))"

definition similarity_read :: "search_result \<Rightarrow> bool" where
  "similarity_read r = (case similarity r of None \<Rightarrow> True | Some v \<Rightarrow> nonneg_or_nan v)"

definition sound :: "search_result \<Rightarrow> bool" where
  "sound r = (path_fields_together r \<and> similarity_read r)"

subsection \<open>The loop of the RAG parser\<close>

text \<open>
  The invariant of the loop of \<open>parseRagOutput\<close>: inside a box there is a current
  source and no code is being collected; while code is collected there is a current
  source; a box is open in the sources section only. Every record built so far is sound.
\<close>

definition rag_inv :: "rag_state \<Rightarrow> bool" where
  "rag_inv st =
     ((currentSource st \<noteq> None \<or> (\<not> inSourceBox st \<and> \<not> collectingCode st))
      \<and> \<not> (inSourceBox st \<and> collectingCode st)
      \<and> (inSourcesSection st \<or> \<not> inSourceBox st))"

definition rag_good :: "rag_state \<Rightarrow> bool" where
  "rag_good st =
     (rag_inv st \<and> list_all sound (sources st)
      \<and> (case currentSource st of None \<Rightarrow> True | Some cur \<Rightarrow> sound cur))"

text \<open>
  A good turn in the sources section: no exception, a good state, the answer and the
  section untouched, and a line is read again only when the turn ended the collection
  of code.
\<close>

definition step_ok :: "rag_state \<Rightarrow> error + rag_state \<times> bool \<Rightarrow> bool" where
  "step_ok st r =
     (case r of
        Inl e \<Rightarrow> False
      | Inr (st', again) \<Rightarrow>
          rag_good st' \<and> answer st' = answer st
          \<and> inSourcesSection st' = inSourcesSection st
          \<and> (again \<longrightarrow> collectingCode st \<and> \<not> collectingCode st'))"

subsection \<open>The answer text\<close>

definition answer_marker :: jstring where
  "answer_marker = ascii ''Answer:''"

text \<open>
  The answer built so far holds no marker and, when it is not empty, ends with the
  space that follows every piece.
\<close>

definition answer_clean :: "rag_state \<Rightarrow> bool" where
  "answer_clean st =
     (\<not> includes_str (answer st) answer_marker \<and> (answer st = [] \<or> last (answer st) = 32))"

text \<open>The border characters.\<close>

definition is_border :: "nat \<Rightarrow> bool" where
  "is_border c = (c \<in> set [BOX_TL, BOX_H, BOX_TR, BOX_V, BOX_BL, BOX_BR])"

definition border_free :: "jstring \<Rightarrow> bool" where
  "border_free s = list_all (\<lambda>c. \<not> is_border c) s"

text \<open>
  What the answer branch makes of a line: the two replacements and \<open>trim\<close>. The line is
  kept when this text passes the test of the branch; the kept texts, each followed by a
  space, are what the branch appends.
\<close>

definition answer_content :: "jstring \<Rightarrow> jstring" where
  "answer_content line = trim (replace_first re_tail [] (replace_first re_lead [] line))"

definition answer_kept :: "jstring \<Rightarrow> bool" where
  "answer_kept line =
     (answer_content line \<noteq> [] \<and> \<not> rtest re_border (answer_content line)
      \<and> answer_content line \<noteq> ascii ''Answer:'')"

definition answer_pieces :: "jstring list \<Rightarrow> jstring" where
  "answer_pieces ls = concat (map (\<lambda>l. answer_content l @ ascii '' '') (filter answer_kept ls))"

text \<open>
  The lines that reach the answer branch while the answer section is open, by the tests
  of the loop body in their order: a blank line is skipped; a line with an answer marker
  opens the answer section; a query echo is skipped; the title of the sources section
  ends the collection for good; any other line is collected when the answer section is
  open, and a line that starts with a bottom border closes the section after it has been
  collected. The flag is \<open>inAnswerSection\<close>.
\<close>

fun collected :: "bool \<Rightarrow> jstring list \<Rightarrow> jstring list" where
  "collected a [] = []"
| "collected a (line # rest) =
     (if trim line = [] then collected a rest
      else if includes_str (trim line) BULB \<or> includes_str (trim line) (ascii ''Answer:'')
      then collected True rest
      else if startsWith (trim line) (ascii ''Code Search - RAG Mode Query:'')
              \<or> startsWith (trim line) (ascii ''Query:'')
      then collected a rest
      else if includes_str (trim line) (ascii ''Supporting Sources'') then []
      else if a then line # collected (\<not> rtest re_boxEnd line) rest
      else collected a rest)"

text \<open>
  The answer so far, followed by what the lines still to read will add to it.
\<close>

definition answer_ahead :: "jstring list \<Rightarrow> rag_state \<Rightarrow> jstring" where
  "answer_ahead ls st =
     answer st @
     (if inSourcesSection st then [] else answer_pieces (collected (inAnswerSection st) ls))"

text \<open>
  Lines of a panel: text between one vertical border on each side, and a line made of
  horizontal borders and corners only.
\<close>

definition framed :: "jstring \<Rightarrow> bool" where
  "framed line =
     (case line of
        [] \<Rightarrow> False
      | c # rest \<Rightarrow>
          c = BOX_V \<and> rest \<noteq> [] \<and> last rest = BOX_V \<and> border_free (butlast rest))"

definition rule_line :: "jstring \<Rightarrow> bool" where
  "rule_line line = list_all (cls_mem (OneOf [BOX_H, BOX_TL, BOX_TR, BOX_BL, BOX_BR])) line"

subsection \<open>A source box with a wrapped path\<close>

text \<open>
  The kind and the name that the loop of \<open>parseRagOutput\<close> reads from the header of a
  source box, and a line that opens the sources section whatever the state: it holds
  the title and none of the tests before that one takes it.
\<close>

definition box_header_of :: "jstring \<Rightarrow> (jstring \<times> jstring) option" where
  "box_header_of line =
     (case rexec re_boxStart line of
        None \<Rightarrow> None
      | Some m \<Rightarrow>
          (case (grp line m 2, grp line m 3) of
             (Some g2, Some g3) \<Rightarrow> Some (toLowerCase g2, trim g3)
           | _ \<Rightarrow> None))"

definition sources_title :: "jstring \<Rightarrow> bool" where
  "sources_title line =
     (\<not> includes_str (trim line) BULB \<and> \<not> includes_str (trim line) (ascii ''Answer:'')
      \<and> \<not> startsWith (trim line) (ascii ''Code Search - RAG Mode Query:'')
      \<and> \<not> startsWith (trim line) (ascii ''Query:'')
      \<and> includes_str (trim line) (ascii ''Supporting Sources''))"

text \<open>
  Inside a box: a line that neither starts the collection of a path nor is the header of
  another box, and a line that the loop reads as the bottom border of the box (no test
  before that of the bottom border takes it).
\<close>

definition quiet :: "jstring \<Rightarrow> bool" where
  "quiet line = (\<not> includes_str line PAGE \<and> rexec re_boxStart line = None)"

definition closes_box :: "jstring \<Rightarrow> bool" where
  "closes_box line =
     (\<not> includes_str line PAGE \<and> \<not> includes_str (trim line) (ascii ''Supporting Sources'')
      \<and> rexec re_ragSim line = None \<and> rexec re_ragDoc line = None \<and> rtest re_boxEnd line)"

text \<open>The path of the round-trip example, and a record that carries it.\<close>

definition path_text :: jstring where
  "path_text = ascii ''foo/bar.py:10-20''"

definition has_path :: "jstring \<Rightarrow> jstring \<Rightarrow> search_result \<Rightarrow> bool" where
  "has_path k n r =
     (type r = k \<and> name r = n \<and> file_path r = Some (ascii ''foo/bar.py'')
      \<and> start_line r = Some (Num 10) \<and> end_line r = Some (Num 20))"

text \<open>
  The states of the loop on such a box, with \<open>S\<close> the sources pushed before it: the box
  is open and no path has been read; the path has been read and the box is open; the box
  is closed and the record still current. At last the record has been pushed: it is the
  source that follows \<open>S\<close>.
\<close>

definition box_open :: "search_result list \<Rightarrow> jstring \<Rightarrow> jstring \<Rightarrow> rag_state \<Rightarrow> bool" where
  "box_open S k n st =
     (inSourcesSection st \<and> inSourceBox st \<and> \<not> collectingFilePath st
      \<and> filePathLines st = [] \<and> sources st = S
      \<and> (case currentSource st of None \<Rightarrow> False | Some cur \<Rightarrow> type cur = k \<and> name cur = n))"

definition path_read :: "search_result list \<Rightarrow> jstring \<Rightarrow> jstring \<Rightarrow> rag_state \<Rightarrow> bool" where
  "path_read S k n st =
     (inSourcesSection st \<and> inSourceBox st \<and> \<not> collectingFilePath st \<and> sources st = S
      \<and> (case currentSource st of None \<Rightarrow> False | Some cur \<Rightarrow> has_path k n cur))"

definition box_closed :: "search_result list \<Rightarrow> jstring \<Rightarrow> jstring \<Rightarrow> rag_state \<Rightarrow> bool" where
  "box_closed S k n st =
     (inSourcesSection st \<and> \<not> inSourceBox st \<and> collectingCode st \<and> sources st = S
      \<and> (case currentSource st of None \<Rightarrow> False | Some cur \<Rightarrow> has_path k n cur))"

definition emitted :: "search_result list \<Rightarrow> jstring \<Rightarrow> jstring \<Rightarrow> search_result list \<Rightarrow> bool" where
  "emitted S k n srcs =
     (length S < length srcs \<and> take (length S) srcs = S \<and> has_path k n (srcs ! length S))"

subsection \<open>The pipeline section of a PR summary\<close>

text \<open>
  The tests of the loop that come before the two pipeline branches, in their order, on
  the trimmed line: the lines the loop skips; the lines of the metadata; the lines that
  are taken without a change of section (skipped, metadata, commit bullet); after them
  the lines that open another section (the top border of a file-change box, the
  overall-summary marker).
\<close>

definition blank_or_separator :: "jstring \<Rightarrow> bool" where
  "blank_or_separator trimmed = (trimmed = [] \<or> rtest re_sep trimmed)"

definition meta_line :: "jstring \<Rightarrow> bool" where
  "meta_line trimmed =
     (startsWith trimmed (ascii ''Branch:'') \<or> startsWith trimmed (ascii ''Commits:'')
      \<or> startsWith trimmed (ascii ''Changed files:''))"

definition passed_over :: "jstring \<Rightarrow> bool" where
  "passed_over trimmed =
     (blank_or_separator trimmed \<or> meta_line trimmed \<or> rtest re_commit trimmed)"

definition ends_pipeline :: "jstring \<Rightarrow> bool" where
  "ends_pipeline trimmed =
     (\<not> passed_over trimmed
      \<and> (rtest re_fileTop trimmed
         \<or> startsWith trimmed (MEMO @ ascii '' Overall PR Summary:'')))"

text \<open>
  A line that one of the branches before the pipeline branches takes, in the state
  \<open>st\<close>: besides the tests above, the two tests of the file-change section on the line
  as it is, and the test of the overall-summary section. A line with a pipeline tag
  holds the pipeline marker or starts with a progress tag.
\<close>

definition taken_before_pipeline :: "pr_state \<Rightarrow> jstring \<Rightarrow> bool" where
  "taken_before_pipeline st line =
     (passed_over (trim line) \<or> rtest re_fileTop (trim line)
      \<or> (currentSection st = FileChange \<and> (rtest re_leadV line \<or> rtest re_leadBL line))
      \<or> startsWith (trim line) (MEMO @ ascii '' Overall PR Summary:'')
      \<or> (currentSection st = OverallSummary \<and> \<not> rtest re_boxOnly (trim line)))"

definition pipeline_tag :: "jstring \<Rightarrow> bool" where
  "pipeline_tag trimmed =
     (includes_str trimmed (ascii ''PR SUMMARIZATION PIPELINE'') \<or> rtest re_progress trimmed)"

text \<open>The state with a text appended to \<open>pipelineInfo\<close>.\<close>

definition add_pipeline :: "jstring \<Rightarrow> pr_state \<Rightarrow> pr_state" where
  "add_pipeline t st =
     st\<lparr>result := (result st)\<lparr>pipelineInfo := pipelineInfo (result st) @ t\<rparr>\<rparr>"

text \<open>
  From \<open>st\<close> to \<open>st'\<close> the section has stayed the pipeline section, \<open>pipelineInfo\<close> has
  grown by the text \<open>t\<close>, and the summary, the warnings and the file changes are as
  they were.
\<close>

definition pipeline_grown :: "pr_state \<Rightarrow> pr_state \<Rightarrow> jstring \<Rightarrow> bool" where
  "pipeline_grown st st' t =
     (currentSection st' = Pipeline
      \<and> pipelineInfo (result st') = pipelineInfo (result st) @ t
      \<and> overallSummary (result st') = overallSummary (result st)
      \<and> warnings (result st') = warnings (result st)
      \<and> fileChanges (result st') = fileChanges (result st))"

section \<open>Sample texts\<close>

text \<open>Panels as the engine prints them.\<close>

definition panel_top :: "string \<Rightarrow> jstring" where
  "panel_top title = [BOX_TL, BOX_H, 32] @ ascii title @ [32, BOX_H, BOX_TR]"

definition panel_row :: "jstring \<Rightarrow> jstring" where
  "panel_row t = [BOX_V, 32] @ t @ [32, BOX_V]"

definition panel_bottom :: jstring where
  "panel_bottom = [BOX_BL, BOX_H, BOX_BR]"

definition unlines :: "jstring list \<Rightarrow> jstring" where
  "unlines ls = join [10] ls"

text \<open>
  A text whose source box has the path \<open>foo/bar.py:10-20\<close> wrapped over two rows: the
  lines before the box, the header, a row before the path, the two path rows, and what
  follows them.
\<close>

definition wrapped_pre :: "jstring list" where
  "wrapped_pre =
     [[BOX_TL, BOX_H, 32] @ BULB @ ascii '' Answer '' @ [BOX_H, BOX_TR],
      panel_row (ascii ''Use f.''), panel_bottom, ascii ''Supporting Sources'']"

definition wrapped_header :: jstring where
  "wrapped_header = panel_top ''1. FUNCTION: f''"

definition wrapped_mid :: "jstring list" where
  "wrapped_mid = [panel_row (CHART @ ascii '' Similarity: 0.5'')]"

definition wrapped_row1 :: jstring where
  "wrapped_row1 = BOX_V # [32, 32] @ PAGE @ [32] @ ascii ''foo/bar'' @ [32, 32, 32] @ [BOX_V]"

definition wrapped_row2 :: jstring where
  "wrapped_row2 = BOX_V # [32] @ ascii ''.py:10-20'' @ [32, 32, 32, 32] @ [BOX_V]"

definition wrapped_rest :: "jstring list" where
  "wrapped_rest =
     [panel_row (MEMO @ ascii '' Does f.''), panel_bottom, ascii ''def f(): pass'',
      panel_top ''2. CLASS: G'']"

definition wrapped_sample :: jstring where
  "wrapped_sample =
     unlines (wrapped_pre @ wrapped_header # wrapped_mid @ wrapped_row1 # wrapped_row2
              # wrapped_rest)"

text \<open>A box with a docstring row that holds the page glyph, before the path rows.\<close>

definition glyph_in_docstring :: jstring where
  "glyph_in_docstring =
     unlines [ascii ''Supporting Sources'', panel_top ''1. FUNCTION: f'',
       panel_row (MEMO @ ascii '' see '' @ PAGE), panel_row (PAGE @ ascii '' foo/bar''),
       panel_row (ascii ''.py:10-20''), panel_bottom]"

text \<open>The panel of the end-to-end example.\<close>

definition connect_db_panel :: jstring where
  "connect_db_panel =
     unlines [panel_top ''1. FUNCTION: connect_db'',
       panel_row (PAGE @ ascii '' db/conn.py:10-20''),
       panel_row (CHART @ ascii '' Similarity: 0.8421''),
       panel_row (MEMO @ ascii '' Opens a pooled database connection.''),
       panel_bottom]"

text \<open>Two results, the second with a header only.\<close>

definition two_results :: jstring where
  "two_results =
     unlines [panel_top ''1. FUNCTION: connect_db'',
       panel_row (PAGE @ ascii '' db/conn.py:10-20''), panel_bottom,
       panel_top ''2. CLASS: Pool'']"

text \<open>A closed box without a file path, followed by the top border of a second box.\<close>

definition two_boxes :: jstring where
  "two_boxes =
     unlines [ascii ''Supporting Sources'', panel_top ''1. FUNCTION: a'', panel_bottom,
       panel_top ''2. FUNCTION: b'']"

text \<open>An answer line with a vertical border inside; an answer panel followed by a source.\<close>

definition answer_with_bar :: jstring where
  "answer_with_bar = unlines [ascii ''Answer:'', panel_row (ascii ''a '' @ [BOX_V] @ ascii '' b'')]"

definition answer_and_sources :: jstring where
  "answer_and_sources =
     unlines [[BOX_TL, BOX_H, 32] @ BULB @ ascii '' Answer '' @ [BOX_H, BOX_TR],
       panel_row (ascii ''Use connect_db.''), panel_bottom,
       ascii ''Supporting Sources'', panel_top ''1. FUNCTION: connect_db'',
       panel_row (PAGE @ ascii '' db/conn''), panel_row (ascii ''.py:10-20''), panel_bottom]"

text \<open>
  Texts of a PR summary: a pipeline line followed by the overall summary, the state after
  a pipeline line, a warning line inside the overall summary.
\<close>

definition pipeline_then_summary :: jstring where
  "pipeline_then_summary =
     unlines [ascii ''[1/2] x'', MEMO @ ascii '' Overall PR Summary:'', ascii ''late text'']"

definition pipeline_state :: pr_state where
  "pipeline_state = add_pipeline (ascii ''[1/2] x'' @ [10]) (pr_init\<lparr>currentSection := Pipeline\<rparr>)"

text \<open>Lines read in the pipeline section, and the top border of a file-change box.\<close>

definition pipeline_lines :: "jstring list" where
  "pipeline_lines =
     [ascii ''  fetching'', [], ascii ''===='', WARNING @ ascii '' slow'',
      ascii ''Branch: main'', [BULLET] @ ascii '' 0a1b2c3d - fix'',
      [BOX_V] @ ascii '' row'', ascii ''Commits: 3'', ascii ''done'']"

definition file_top_line :: jstring where
  "file_top_line =
     [BOX_TL, BOX_H, 32] @ DIAMOND @ ascii '' a.py '' @ [BOX_H, BOX_TR]"

definition warning_in_summary :: jstring where
  "warning_in_summary =
     unlines [MEMO @ ascii '' Overall PR Summary:'', WARNING @ ascii '' careful'']"

text \<open>A result with the similarity 7.\<close>

definition similarity_seven :: jstring where
  "similarity_seven = unlines [ascii ''1. FUNCTION: f'', CHART @ ascii '' Similarity: 7'']"

text \<open>
  A sources section that ends inside the first box, the state of the loop after these
  lines, and the header of a second box.
\<close>

definition open_box_lines :: "jstring list" where
  "open_box_lines =
     [ascii ''Supporting Sources'', panel_top ''1. FUNCTION: a'',
      panel_row (PAGE @ ascii '' a.py:1-2'')]"

definition second_header :: jstring where
  "second_header = panel_top ''2. FUNCTION: b''"

definition open_box_state :: rag_state where
  "open_box_state =
     \<lparr>answer = [], sources = [],
      currentSource = Some (new_result (ascii ''function'') (ascii ''a'')),
      inAnswerSection = False, inSourcesSection = True, inSourceBox = True,
      collectingCode = False, codeLines = [], collectingFilePath = True,
      filePathLines = [ascii ''a.py:1-2'']\<rparr>"

text \<open>
  A box that is still open when a header line is read that holds the title of the
  sources section.
\<close>

definition title_header :: jstring where
  "title_header = panel_top ''2. FUNCTION: Supporting Sources''"

definition open_box_then_title :: jstring where
  "open_box_then_title =
     unlines [ascii ''Supporting Sources'', panel_top ''1. FUNCTION: a'',
       panel_row (PAGE @ ascii '' a.py''), panel_row (ascii '':1-2''), title_header]"

section \<open>Properties of the numbers\<close>

text \<open>A positive number \<open>n\<close> has \<open>bitlen n\<close> binary digits.\<close>

lemma bitlen_0 [simp]: "bitlen 0 = 0"
  by (simp add: bitlen.simps)

lemma bitlen_pos: "0 < n \<Longrightarrow> bitlen n = Suc (bitlen (n div 2))"
  by (simp add: bitlen.simps[of n])

lemma bitlen_bounds: "0 < n \<Longrightarrow> 2 ^ (bitlen n - 1) \<le> n \<and> n < 2 ^ bitlen n"
proof (induction n rule: less_induct)
  case (less n)
  show ?case
  proof (cases "n div 2 = 0")
    case True
    with less.prems have "n = 1" by (simp add: div_eq_0_iff) 
    then show ?thesis by (simp add: bitlen_pos)
  next
    case False
    then have pos: "0 < n div 2" by simp
    have "n div 2 < n" using less.prems by simp
    from less.IH[OF this pos]
    have ih: "2 ^ (bitlen (n div 2) - 1) \<le> n div 2" "n div 2 < 2 ^ bitlen (n div 2)"
      by simp_all
    from pos have bp: "0 < bitlen (n div 2)" by (simp add: bitlen_pos)
    have b: "bitlen n = Suc (bitlen (n div 2))" using less.prems by (rule bitlen_pos)
    from bp have p: "(2::nat) ^ bitlen (n div 2) = 2 * 2 ^ (bitlen (n div 2) - 1)"
      by (cases "bitlen (n div 2)") simp_all
    from ih(1) have "2 * 2 ^ (bitlen (n div 2) - 1) \<le> n" by arith
    moreover from ih(2) have "n < 2 * 2 ^ bitlen (n div 2)" by arith
    ultimately show ?thesis using b p by simp
  qed
qed

lemma bitlen_1 [simp]: "bitlen (Suc 0) = Suc 0"
  by (simp add: bitlen_pos)

lemma round_half_even_1 [simp]: "round_half_even a (Suc 0) = a"
  by (simp add: round_half_even_def)

text \<open>
  A positive integer below \<open>2 ^ 53\<close> is a double; an integer from \<open>2 ^ 1024\<close> on is read
  as Infinity.
\<close>

lemma to_double_exact:
  assumes "0 < n" and "n < 2 ^ 53"
  shows "to_double n (Suc 0) = Num (of_nat n)"
proof -
  let ?l = "bitlen n"
  from bitlen_bounds[OF assms(1)] have lo: "2 ^ (?l - 1) \<le> n" and hi: "n < 2 ^ ?l" by simp_all
  from assms(1) have l1: "0 < ?l" by (simp add: bitlen_pos)
  from lo assms(2) have "(2::nat) ^ (?l - 1) < 2 ^ 53" by (rule le_less_trans)
  then have "?l - 1 < 53" by (simp only: power_strict_increasing_iff one_less_numeral_iff semiring_norm)
  with l1 have l53: "?l \<le> 53" by simp
  define d where "d = 53 - ?l"
  have e0: "int ?l - int (bitlen (Suc 0)) = int (?l - 1)" using l1 by simp
  have t: "\<not> n * 2 ^ nat (- int (?l - 1)) < Suc 0 * 2 ^ nat (int (?l - 1))"
    using lo by simp
  have u: "max (int (?l - 1)) (- 1022) - 52 = - int d"
    using l1 l53 by (simp add: d_def)
  have v: "(of_nat (n * 2 ^ d) :: rat) * 2 powi (- int d) = of_nat n"
    by (simp add: power_int_minus field_simps)
  show ?thesis
    unfolding to_double_def e0 Let_def
    using assms(1) t u v l1 l53 by simp
qed

lemma to_double_overflow:
  assumes "2 ^ 1024 \<le> n"
  shows "to_double n (Suc 0) = Infinity False"
proof -
  let ?l = "bitlen n"
  from assms have pos: "0 < n" by (metis less_le_trans zero_less_numeral zero_less_power)
  from bitlen_bounds[OF pos] have lo: "2 ^ (?l - 1) \<le> n" and hi: "n < 2 ^ ?l" by simp_all
  from assms hi have "(2::nat) ^ 1024 < 2 ^ ?l" by (rule le_less_trans)
  then have l: "1024 < ?l" by (simp only: power_strict_increasing_iff one_less_numeral_iff semiring_norm)
  have e0: "int ?l - int (bitlen (Suc 0)) = int (?l - 1)" using l by simp
  have t: "\<not> n * 2 ^ nat (- int (?l - 1)) < Suc 0 * 2 ^ nat (int (?l - 1))"
    using lo by simp
  show ?thesis
    unfolding to_double_def e0 Let_def
    using pos t l by simp
qed

text \<open>No double that \<open>to_double\<close> gives is negative.\<close>

lemma to_double_nonneg: "nonneg_or_nan (to_double a b)"
  by (simp add: to_double_def nonneg_or_nan_def Let_def zero_le_power_int)

section \<open>Evaluation\<close>

text \<open>The defining equations, gathered for the simplifier to run the parsers on a text.\<close>

lemmas glyph_defs = BOX_H_def BOX_V_def BOX_TL_def BOX_TR_def BOX_BL_def BOX_BR_def BULLET_def
  PAGE_def CHART_def MEMO_def BULB_def DIAMOND_def WARNING_def

lemmas cls_defs = is_space_def is_digit_def is_word_def is_line_terminator_def

lemmas str_defs = ascii_def rexec_def rtest_def substr_def grp_def replace_first_def
  replace_all_def trim_def startsWith_def toLowerCase_def

lemmas num_defs = digit_val_def digits_val_def signed_def negate_def parseInt_def
  read_exponent_def parseFloat_def or_zero_def to_double_exact

lemmas search_defs = re_cr_def re_header_def re_file_def re_trail_def re_sim_def re_doc_def
  need_def new_result_def push_current_def search_step_def parseSearchOutput_def

lemmas rag_defs = re_cr_def re_boxStart_def re_pathMarker_def re_pathLine_def re_border_def
  re_complete_def re_ragSim_def re_ragDoc_def re_boxEnd_def re_boxTop_def re_lead_def
  re_tail_def need_def new_result_def attach_code_def rag_box_start_def rag_code_def
  rag_box_def rag_sources_def rag_answer_def rag_step_def rag_init_def rag_finish_def
  parseRagOutput_def

lemmas pr_defs = re_sep_def re_commit_def re_fileTop_def re_fileName_def re_leadV_def
  re_leadBL_def re_boxOnly_def re_progress_def re_lead_def re_tail_def need_def
  push_file_change_def pr_step_def pr_init_def pr_finish_def parsePRSummary_def

lemmas render_defs = panel_top_def panel_row_def panel_bottom_def unlines_def

lemmas wrapped_defs = wrapped_pre_def wrapped_header_def wrapped_mid_def wrapped_row1_def
  wrapped_row2_def wrapped_rest_def wrapped_sample_def

lemma rag_loop_Nil: "rag_loop [] st = Some (Inr st)"
  by (subst rag_loop.simps) simp

lemma rag_loop_Cons:
  "rag_loop (line # rest) st =
     (case rag_step line st of
        Inl e \<Rightarrow> Some (Inl e)
      | Inr (st', again) \<Rightarrow> if again then rag_loop (line # rest) st' else rag_loop rest st')"
  by (subst rag_loop.simps) simp

declare rag_loop.simps [code]

section \<open>Properties of the matcher\<close>

text \<open>A match sets every group that the pattern closes.\<close>

lemma rmatch_closed:
  "rmatch r s i c = Some (e, c') \<Longrightarrow> well_grouped os r \<Longrightarrow> set os \<subseteq> fst ` set (opened c)
   \<Longrightarrow> fst ` set (closed c) \<union> set (closes r) \<subseteq> fst ` set (closed c')"
proof (induction r s i c arbitrary: e c' os rule: rmatch.induct)
  case (1 s i c)
  then show ?case by simp
next
  case (2 l r s i c)
  then show ?case by (auto split: option.splits)
next
  case (3 k r s i c)
  then show ?case by (auto split: list.splits if_splits)
next
  case (4 k r s i c)
  show ?case
  proof (cases s)
    case Nil
    with "4.prems" have "rmatch r s i c = Some (e, c')" by simp
    from "4.IH"(1)[OF Nil this] "4.prems"(2,3) show ?thesis by simp
  next
    case (Cons x xs)
    show ?thesis
    proof (cases "cls_mem k x")
      case True
      show ?thesis
      proof (cases "rmatch (Star k # r) xs (Suc i) c")
        case None
        with "4.prems" Cons True have "rmatch r s i c = Some (e, c')" by simp
        from "4.IH"(3)[OF Cons True None this] "4.prems"(2,3) show ?thesis by simp
      next
        case (Some res)
        with "4.prems" Cons True have "rmatch (Star k # r) xs (Suc i) c = Some (e, c')" by simp
        from "4.IH"(2)[OF Cons True this] "4.prems"(2,3) show ?thesis by simp
      qed
    next
      case False
      with "4.prems" Cons have "rmatch r s i c = Some (e, c')" by simp
      from "4.IH"(4)[OF Cons False this] "4.prems"(2,3) show ?thesis by simp
    qed
  qed
next
  case (5 k r s i c)
  show ?case
  proof (cases "rmatch r s i c")
    case (Some res)
    with "5.prems" have "rmatch r s i c = Some (e, c')" by simp
    from "5.IH"(1)[OF this] "5.prems"(2,3) show ?thesis by simp
  next
    case None
    with "5.prems" obtain x xs where s: "s = x # xs" and k: "cls_mem k x"
      and m: "rmatch (LazyStar k # r) xs (Suc i) c = Some (e, c')"
      by (auto split: list.splits if_splits)
    from "5.IH"(2)[OF None s k m] "5.prems"(2,3) show ?thesis by simp
  qed
next
  case (6 a b r s i c)
  let ?first = "case strip_prefix a s of None \<Rightarrow> None
                | Some s' \<Rightarrow> rmatch r s' (i + length a) c"
  show ?case
  proof (cases ?first)
    case (Some res)
    with "6.prems" obtain s' where sp: "strip_prefix a s = Some s'"
      and m: "rmatch r s' (i + length a) c = Some (e, c')"
      by (auto split: option.splits)
    from "6.IH"(1)[OF sp m] "6.prems"(2,3) show ?thesis by simp
  next
    case None
    with "6.prems" obtain s' where sp: "strip_prefix b s = Some s'"
      and m: "rmatch r s' (i + length b) c = Some (e, c')"
      by (auto split: option.splits)
    from "6.IH"(2)[OF None sp m] "6.prems"(2,3) show ?thesis by simp
  qed
next
  case (7 g r s i c)
  from "7.prems" have m: "rmatch r s i (c\<lparr>opened := (g, i) # opened c\<rparr>) = Some (e, c')"
    and w: "well_grouped (g # os) r" by simp_all
  from "7.prems"(3) have "set (g # os) \<subseteq> fst ` set (opened (c\<lparr>opened := (g, i) # opened c\<rparr>))"
    by auto
  from "7.IH"[OF m w this] show ?case by simp
next
  case (8 g r s i c)
  from "8.prems" have g: "g \<in> set os" and w: "well_grouped os r" by simp_all
  with "8.prems"(3) have "g \<in> fst ` set (opened c)" by auto
  then obtain b where b: "map_of (opened c) g = Some b"
    by (metis domD dom_map_of_conv_image_fst)
  with "8.prems" have m: "rmatch r s i (c\<lparr>closed := (g, b, i) # closed c\<rparr>) = Some (e, c')" by simp
  from "8.IH"(2)[OF b m w] "8.prems"(3) show ?case by auto
next
  case (9 r s i c)
  then show ?case by (auto split: if_splits)
next
  case (10 r s i c)
  then show ?case by (auto split: if_splits)
qed

lemma exec_from_closed:
  "exec_from re s i = Some mt \<Longrightarrow> well_grouped [] re \<Longrightarrow> set (closes re) \<subseteq> fst ` set (m_closed mt)"
proof (induction re s i rule: exec_from.induct)
  case (1 re i)
  then show ?case by (auto split: option.splits dest!: rmatch_closed[where os = "[]"])
next
  case (2 re x xs i)
  show ?case
  proof (cases "rmatch re (x # xs) i \<lparr>opened = [], closed = []\<rparr>")
    case None
    with 2 show ?thesis by simp
  next
    case (Some res)
    obtain e c where res: "res = (e, c)" by (cases res)
    from rmatch_closed[OF Some[unfolded res] "2.prems"(2)] "2.prems"(1) Some res
    show ?thesis by auto
  qed
qed

lemma rexec_grp:
  assumes "rexec re s = Some mt" and "well_grouped [] re" and "g \<in> set (closes re)"
  shows "\<exists>t. grp s mt g = Some t"
proof -
  from exec_from_closed[OF assms(1)[unfolded rexec_def] assms(2)] assms(3)
  have "g \<in> fst ` set (m_closed mt)" by auto
  then obtain be where "map_of (m_closed mt) g = Some be"
    by (metis domD dom_map_of_conv_image_fst)
  then show ?thesis by (cases be) (simp add: grp_def)
qed

lemma need_Some [simp]: "need (Some v) f = f v"
  by (simp add: need_def)

text \<open>A match of a pattern runs through the match of each of its tails.\<close>

lemma rmatch_append_aux:
  "q = p @ r \<Longrightarrow> rmatch q s i c = Some res \<Longrightarrow> no_groups p
   \<Longrightarrow> \<exists>u s'. s = u @ s' \<and> rmatch r s' (i + length u) c = Some res"
proof (induction q s i c arbitrary: p rule: rmatch.induct)
  case (1 s i c)
  then show ?case by (rule_tac x = "[]" in exI) simp
next
  case (2 l q s i c)
  show ?case
  proof (cases p)
    case Nil
    with "2.prems" show ?thesis by (rule_tac x = "[]" in exI) simp
  next
    case (Cons n p')
    from "2.prems"(1,2) have m0: "rmatch (Lit l # q) s i c = Some res" by simp
    from Cons "2.prems" have q: "q = p' @ r" and ng: "no_groups p'" by auto
    from m0 obtain s' where sp: "strip_prefix l s = Some s'"
      and m: "rmatch q s' (i + length l) c = Some res"
      by (auto split: option.splits)
    from "2.IH"[OF sp q m ng] obtain u s2 where
      "s' = u @ s2" "rmatch r s2 (i + length l + length u) c = Some res" by auto
    with strip_prefix_consumes[OF sp] show ?thesis
      by (rule_tac x = "l @ u" in exI, rule_tac x = s2 in exI) (simp add: add.assoc)
  qed
next
  case (3 k q s i c)
  show ?case
  proof (cases p)
    case Nil
    with "3.prems" show ?thesis by (rule_tac x = "[]" in exI) simp
  next
    case (Cons n p')
    from "3.prems"(1,2) have m0: "rmatch (One k # q) s i c = Some res" by simp
    from Cons "3.prems" have q: "q = p' @ r" and ng: "no_groups p'" by auto
    from m0 obtain x xs where s: "s = x # xs" and k: "cls_mem k x"
      and m: "rmatch q xs (Suc i) c = Some res"
      by (auto split: list.splits if_splits)
    from "3.IH"[OF s k q m ng] obtain u s2 where
      "xs = u @ s2" "rmatch r s2 (Suc i + length u) c = Some res" by auto
    with s show ?thesis by (rule_tac x = "x # u" in exI, rule_tac x = s2 in exI) simp
  qed
next
  case (4 k q s i c)
  show ?case
  proof (cases p)
    case Nil
    with "4.prems" show ?thesis by (rule_tac x = "[]" in exI) simp
  next
    case (Cons n p')
    from "4.prems"(1,2) have m0: "rmatch (Star k # q) s i c = Some res" by simp
    from Cons "4.prems" have q: "q = p' @ r" and ng: "no_groups p'"
      and q2: "Star k # q = p @ r" and ng2: "no_groups p" by auto
    show ?thesis
    proof (cases s)
      case Nil
      with m0 have "rmatch q s i c = Some res" by simp
      from "4.IH"(1)[OF Nil q this ng] show ?thesis .
    next
      case (Cons x xs)
      show ?thesis
      proof (cases "cls_mem k x")
        case True
        show ?thesis
        proof (cases "rmatch (Star k # q) xs (Suc i) c")
          case None
          with m0 Cons True have "rmatch q s i c = Some res" by simp
          from "4.IH"(3)[OF Cons True None q this ng] show ?thesis .
        next
          case (Some res')
          with m0 Cons True have "rmatch (Star k # q) xs (Suc i) c = Some res" by simp
          from "4.IH"(2)[OF Cons True q2 this ng2] obtain u s2 where
            "xs = u @ s2" "rmatch r s2 (Suc i + length u) c = Some res" by auto
          with Cons show ?thesis by (rule_tac x = "x # u" in exI, rule_tac x = s2 in exI) simp
        qed
      next
        case False
        with m0 Cons have "rmatch q s i c = Some res" by simp
        from "4.IH"(4)[OF Cons False q this ng] show ?thesis .
      qed
    qed
  qed
next
  case (5 k q s i c)
  show ?case
  proof (cases p)
    case Nil
    with "5.prems" show ?thesis by (rule_tac x = "[]" in exI) simp
  next
    case (Cons n p')
    from "5.prems"(1,2) have m0: "rmatch (LazyStar k # q) s i c = Some res" by simp
    from Cons "5.prems" have q: "q = p' @ r" and ng: "no_groups p'"
      and q2: "LazyStar k # q = p @ r" and ng2: "no_groups p" by auto
    show ?thesis
    proof (cases "rmatch q s i c")
      case (Some res')
      with m0 have "rmatch q s i c = Some res" by simp
      from "5.IH"(1)[OF q this ng] show ?thesis .
    next
      case None
      with m0 obtain x xs where s: "s = x # xs" and k: "cls_mem k x"
        and m: "rmatch (LazyStar k # q) xs (Suc i) c = Some res"
        by (auto split: list.splits if_splits)
      from "5.IH"(2)[OF None s k q2 m ng2] obtain u s2 where
        "xs = u @ s2" "rmatch r s2 (Suc i + length u) c = Some res" by auto
      with s show ?thesis by (rule_tac x = "x # u" in exI, rule_tac x = s2 in exI) simp
    qed
  qed
next
  case (6 a b q s i c)
  show ?case
  proof (cases p)
    case Nil
    with "6.prems" show ?thesis by (rule_tac x = "[]" in exI) simp
  next
    case (Cons n p')
    from "6.prems"(1,2) have m0: "rmatch (Alt a b # q) s i c = Some res" by simp
    from Cons "6.prems" have q: "q = p' @ r" and ng: "no_groups p'" by auto
    let ?first = "case strip_prefix a s of None \<Rightarrow> None
                  | Some s' \<Rightarrow> rmatch q s' (i + length a) c"
    show ?thesis
    proof (cases ?first)
      case (Some res')
      with m0 obtain s' where sp: "strip_prefix a s = Some s'"
        and m: "rmatch q s' (i + length a) c = Some res"
        by (auto split: option.splits)
      from "6.IH"(1)[OF sp q m ng] obtain u s2 where
        "s' = u @ s2" "rmatch r s2 (i + length a + length u) c = Some res" by auto
      with strip_prefix_consumes[OF sp] show ?thesis
        by (rule_tac x = "a @ u" in exI, rule_tac x = s2 in exI) (simp add: add.assoc)
    next
      case None
      with m0 obtain s' where sp: "strip_prefix b s = Some s'"
        and m: "rmatch q s' (i + length b) c = Some res"
        by (auto split: option.splits)
      from "6.IH"(2)[OF None sp q m ng] obtain u s2 where
        "s' = u @ s2" "rmatch r s2 (i + length b + length u) c = Some res" by auto
      with strip_prefix_consumes[OF sp] show ?thesis
        by (rule_tac x = "b @ u" in exI, rule_tac x = s2 in exI) (simp add: add.assoc)
    qed
  qed
next
  case (7 g q s i c)
  then show ?case by (cases p) (rule_tac x = "[]" in exI, simp_all)
next
  case (8 g q s i c)
  then show ?case by (cases p) (rule_tac x = "[]" in exI, simp_all)
next
  case (9 q s i c)
  show ?case
  proof (cases p)
    case Nil
    with "9.prems" show ?thesis by (rule_tac x = "[]" in exI) simp
  next
    case (Cons n p')
    from "9.prems"(1,2) have m0: "rmatch (Bol # q) s i c = Some res" by simp
    from Cons "9.prems" have q: "q = p' @ r" and ng: "no_groups p'" by auto
    from m0 have i: "i = 0" and m: "rmatch q s i c = Some res"
      by (auto split: if_splits)
    from "9.IH"[OF i q m ng] show ?thesis .
  qed
next
  case (10 q s i c)
  show ?case
  proof (cases p)
    case Nil
    with "10.prems" show ?thesis by (rule_tac x = "[]" in exI) simp
  next
    case (Cons n p')
    from "10.prems"(1,2) have m0: "rmatch (Eol # q) s i c = Some res" by simp
    from Cons "10.prems" have q: "q = p' @ r" and ng: "no_groups p'" by auto
    from m0 have e: "s = []" and m: "rmatch q s i c = Some res"
      by (auto split: if_splits)
    from "10.IH"[OF e q m ng] show ?thesis .
  qed
qed

lemma rmatch_append:
  "rmatch (p @ r) s i c = Some res \<Longrightarrow> no_groups p
   \<Longrightarrow> \<exists>u s'. s = u @ s' \<and> rmatch r s' (i + length u) c = Some res"
  by (rule rmatch_append_aux[OF refl])

lemma rmatch_no_groups:
  assumes "rmatch p s i c = Some (e, c')" and "no_groups p"
  shows "c' = c"
  using rmatch_append[of p "[]" s i c "(e, c')"] assms by auto

lemma exec_from_rmatch:
  "exec_from re s i = Some mt \<Longrightarrow>
   \<exists>k c. k \<le> length s \<and> m_start mt = i + k
     \<and> rmatch re (drop k s) (i + k) \<lparr>opened = [], closed = []\<rparr> = Some (m_end mt, c)
     \<and> m_closed mt = closed c"
proof (induction re s i rule: exec_from.induct)
  case (1 re i)
  then show ?case by (rule_tac x = 0 in exI) (auto split: option.splits)
next
  case (2 re x xs i)
  show ?case
  proof (cases "rmatch re (x # xs) i \<lparr>opened = [], closed = []\<rparr>")
    case None
    with 2 obtain k c where "k \<le> length xs" "m_start mt = Suc i + k"
      "rmatch re (drop k xs) (Suc i + k) \<lparr>opened = [], closed = []\<rparr> = Some (m_end mt, c)"
      "m_closed mt = closed c" by auto
    then show ?thesis by (rule_tac x = "Suc k" in exI) simp
  next
    case (Some res)
    with "2.prems" show ?thesis by (rule_tac x = 0 in exI) (auto split: prod.splits)
  qed
qed

text \<open>
  The text of a group that opens on a character class starts with a character of the
  class.
\<close>

lemma capture_head:
  assumes ex: "rexec (p @ Open g # One k # q @ Close g # rest) line = Some m"
    and ng: "no_groups p" "no_groups q" "no_groups rest"
  shows "\<exists>x t. grp line m g = Some (x # t) \<and> cls_mem k x"
proof -
  let ?c0 = "\<lparr>opened = [], closed = []\<rparr>"
  from exec_from_rmatch[OF ex[unfolded rexec_def]] obtain j c where
    j: "j \<le> length line" "m_start m = j"
    and m0: "rmatch (p @ Open g # One k # q @ Close g # rest) (drop j line) j ?c0 = Some (m_end m, c)"
    and cl: "m_closed m = closed c" by auto
  from rmatch_append[OF m0 ng(1)] obtain u s1 where
    u: "drop j line = u @ s1"
    and m1: "rmatch (Open g # One k # q @ Close g # rest) s1 (j + length u) ?c0 = Some (m_end m, c)"
    by blast
  let ?b = "j + length u"
  let ?c1 = "?c0\<lparr>opened := (g, ?b) # opened ?c0\<rparr>"
  from m1 obtain x xs where s1: "s1 = x # xs" and kx: "cls_mem k x"
    and m2: "rmatch (q @ Close g # rest) xs (Suc ?b) ?c1 = Some (m_end m, c)"
    by (auto split: list.splits if_splits)
  from rmatch_append[OF m2 ng(2)] obtain v s2 where
    v: "xs = v @ s2"
    and m3: "rmatch (Close g # rest) s2 (Suc ?b + length v) ?c1 = Some (m_end m, c)"
    by blast
  let ?e = "Suc ?b + length v"
  from m3 have m4: "rmatch rest s2 ?e (?c1\<lparr>closed := (g, ?b, ?e) # closed ?c1\<rparr>) = Some (m_end m, c)"
    by simp
  from rmatch_no_groups[OF m4 ng(3)] cl have "map_of (m_closed m) g = Some (?b, ?e)" by simp
  then have "grp line m g = Some (substr line ?b ?e)" by (simp add: grp_def)
  moreover have "drop ?b line = x # v @ s2"
    using u s1 v by (metis append_eq_conv_conj drop_drop add.commute)
  then have "substr line ?b ?e = x # v" by (simp add: substr_def)
  ultimately show ?thesis using kx by simp
qed

lemma sim_capture:
  assumes "rexec re_sim line = Some m"
  shows "\<exists>x t. grp line m 1 = Some (x # t) \<and> cls_mem DigitOrDot x"
proof -
  let ?p = "[Lit CHART, One Space, Star Space, Lit (ascii ''Similarity:''), One Space, Star Space]"
  have "rexec (?p @ Open 1 # One DigitOrDot # [Star DigitOrDot] @ Close 1 # []) line = Some m"
    using assms by (simp add: re_sim_def)
  from capture_head[OF this] show ?thesis by simp
qed

lemma ragSim_capture:
  assumes "rexec re_ragSim line = Some m"
  shows "\<exists>x t. grp line m 1 = Some (x # t) \<and> cls_mem DigitOrDot x"
proof -
  let ?p = "[Lit [BOX_V], Star Space, Lit CHART, One Space, Star Space,
       Lit (ascii ''Similarity:''), One Space, Star Space]"
  have "rexec (?p @ Open 1 # One DigitOrDot # [Star DigitOrDot] @ Close 1
      # [Star Space, Lit [BOX_V]]) line = Some m"
    using assms by (simp add: re_ragSim_def)
  from capture_head[OF this] show ?thesis by simp
qed

section \<open>Properties of the string methods and of anchored patterns\<close>

text \<open>\<open>trim\<close> removes white space at both ends and nothing else.\<close>

lemma trim_decomp:
  "\<exists>a b. s = a @ trim s @ b \<and> list_all is_space a \<and> list_all is_space b"
proof -
  let ?d = "dropWhile is_space s"
  have "s = takeWhile is_space s @ ?d" by simp
  moreover have "?d = trim s @ rev (takeWhile is_space (rev ?d))"
    unfolding trim_def by (metis rev_append rev_rev_ident takeWhile_dropWhile_id)
  moreover have "list_all is_space (takeWhile is_space s)"
    by (simp add: list_all_iff) (meson set_takeWhileD)
  moreover have "list_all is_space (rev (takeWhile is_space (rev ?d)))"
    by (simp add: list_all_iff) (meson set_takeWhileD)
  ultimately show ?thesis by metis
qed

lemma trim_head:
  assumes "\<not> is_space c"
  shows "\<exists>t. trim (c # rest) = c # t"
proof -
  have "\<exists>z. dropWhile is_space (rev rest @ [c]) = z @ [c]"
    using assms by (simp add: dropWhile_append)
  then obtain z where "dropWhile is_space (rev rest @ [c]) = z @ [c]" by blast
  then have "trim (c # rest) = c # rev z" using assms by (simp add: trim_def)
  then show ?thesis by blast
qed

lemma trim_set: "set (trim s) \<subseteq> set s"
  using trim_decomp[of s] by (metis Un_upper1 Un_upper2 set_append subset_trans)

text \<open>A line that starts with a character other than white space, \<open>C\<close> and \<open>Q\<close>.\<close>

lemma row_head:
  assumes "\<not> is_space c" and "c \<noteq> 67" and "c \<noteq> 81"
  shows "trim (c # rest) \<noteq> []"
    "\<not> startsWith (trim (c # rest)) (ascii ''Code Search - RAG Mode Query:'')"
    "\<not> startsWith (trim (c # rest)) (ascii ''Query:'')"
proof -
  from trim_head[OF assms(1), of rest] obtain t where t: "trim (c # rest) = c # t" by blast
  show "trim (c # rest) \<noteq> []" by (simp add: t)
  show "\<not> startsWith (trim (c # rest)) (ascii ''Code Search - RAG Mode Query:'')"
    using assms(2) by (simp add: t startsWith_def ascii_def)
  show "\<not> startsWith (trim (c # rest)) (ascii ''Query:'')"
    using assms(3) by (simp add: t startsWith_def ascii_def)
qed

text \<open>An anchored pattern matches at the start of the text or not at all.\<close>

lemma exec_from_Bol: "0 < i \<Longrightarrow> exec_from (Bol # r) s i = None"
  by (induction s arbitrary: i) simp_all

lemma rexec_Bol:
  "rexec (Bol # r) s =
     (case rmatch r s 0 \<lparr>opened = [], closed = []\<rparr> of
        None \<Rightarrow> None
      | Some (e, c) \<Rightarrow> Some \<lparr>m_start = 0, m_end = e, m_closed = closed c\<rparr>)"
  by (cases s) (simp_all add: rexec_def exec_from_Bol split: option.splits)

lemma rtest_Bol: "rtest (Bol # r) s = (rmatch r s 0 \<lparr>opened = [], closed = []\<rparr> \<noteq> None)"
  by (simp add: rtest_def rexec_Bol split: option.splits)

lemma boxStart_head:
  assumes "rexec re_boxStart line = Some m"
  shows "\<exists>rest. line = BOX_TL # rest"
  using assms
  by (auto simp: re_boxStart_def rexec_Bol split: option.splits dest: strip_prefix_consumes)

text \<open>\<open>includes\<close>: the pattern occurs somewhere in the text.\<close>

lemma strip_prefix_append [simp]: "strip_prefix l (l @ s) = Some s"
  by (induction l) simp_all

lemma startsWith_Nil [simp]: "startsWith s []"
  by (simp add: startsWith_def)

lemma startsWith_Cons:
  "startsWith s (y # ps) = (\<exists>t. s = y # t \<and> startsWith t ps)"
  by (cases s) (auto simp: startsWith_def)

lemma includes_Nil [simp]: "includes_str s []"
  by (cases s) simp_all

lemma startsWith_append: "startsWith u p \<Longrightarrow> startsWith (u @ w) p"
  by (induction p arbitrary: u) (auto simp: startsWith_Cons)

lemma includes_append_left: "includes_str t p \<Longrightarrow> includes_str (a @ t) p"
  by (induction a) simp_all

lemma includes_append_right: "includes_str t p \<Longrightarrow> includes_str (t @ b) p"
proof (induction t)
  case Nil
  then show ?case by simp
next
  case (Cons x t)
  then show ?case using startsWith_append[of "x # t" p b] by auto
qed

lemma includes_piece: "includes_str t p \<Longrightarrow> includes_str (a @ t @ b) p"
  by (simp add: includes_append_left includes_append_right)

text \<open>An occurrence cannot run over a character that the pattern does not have.\<close>

lemma startsWith_cut: "c \<notin> set p \<Longrightarrow> startsWith (u @ c # v) p \<Longrightarrow> startsWith u p"
  by (induction p arbitrary: u) (auto simp: startsWith_Cons append_eq_Cons_conv)

lemma includes_cut:
  "c \<notin> set p \<Longrightarrow> includes_str (u @ c # v) p \<Longrightarrow> includes_str u p \<or> includes_str v p"
proof (induction u)
  case Nil
  then show ?case by (cases p) (auto simp: startsWith_Cons)
next
  case (Cons x u)
  from Cons.prems(2) have "startsWith ((x # u) @ c # v) p \<or> includes_str (u @ c # v) p"
    by simp
  then show ?case
  proof
    assume "startsWith ((x # u) @ c # v) p"
    from startsWith_cut[OF Cons.prems(1) this] show ?thesis by simp
  next
    assume "includes_str (u @ c # v) p"
    from Cons.IH[OF Cons.prems(1) this] show ?thesis by auto
  qed
qed

lemma includes_foreign:
  assumes "\<forall>x\<in>set a. x \<notin> set p" and "p \<noteq> []"
  shows "\<not> includes_str a p"
  using assms
proof (induction a)
  case Nil
  then show ?case by simp
next
  case (Cons x a)
  then show ?case using includes_cut[of x p "[]" a] by auto
qed

lemma includes_strip_left:
  assumes "\<forall>x\<in>set a. x \<notin> set p" and "p \<noteq> []" and "includes_str (a @ t) p"
  shows "includes_str t p"
  using assms
proof (induction a)
  case Nil
  then show ?case by simp
next
  case (Cons x a)
  then show ?case using includes_cut[of x p "[]" "a @ t"] by auto
qed

lemma includes_strip_right:
  assumes "\<forall>x\<in>set b. x \<notin> set p" and "p \<noteq> []" and "includes_str (t @ b) p"
  shows "includes_str t p"
proof (cases b)
  case Nil
  with assms show ?thesis by simp
next
  case (Cons x b')
  with assms have "includes_str t p \<or> includes_str b' p"
    using includes_cut[of x p t b'] by simp
  moreover have "\<not> includes_str b' p"
    using includes_foreign[of b' p] assms(1,2) Cons by simp
  ultimately show ?thesis by simp
qed

lemma includes_trim:
  assumes "\<forall>x. is_space x \<longrightarrow> x \<notin> set p" and "p \<noteq> []"
  shows "includes_str (trim s) p = includes_str s p"
proof -
  from trim_decomp[of s] obtain a b where s: "s = a @ trim s @ b"
    and a: "list_all is_space a" and b: "list_all is_space b" by blast
  have fa: "\<forall>x\<in>set a. x \<notin> set p" and fb: "\<forall>x\<in>set b. x \<notin> set p"
    using a b assms(1) by (auto simp: list_all_iff)
  show ?thesis
  proof
    assume "includes_str (trim s) p"
    from includes_piece[OF this, of a b] s show "includes_str s p" by simp
  next
    assume "includes_str s p"
    with s have "includes_str (a @ (trim s @ b)) p" by simp
    from includes_strip_left[OF fa assms(2) this] have "includes_str (trim s @ b) p" .
    from includes_strip_right[OF fb assms(2) this] show "includes_str (trim s) p" .
  qed
qed

text \<open>An occurrence of a pattern holds every character of the pattern.\<close>

lemma startsWith_set: "startsWith u p \<Longrightarrow> set p \<subseteq> set u"
proof (induction p arbitrary: u)
  case Nil
  then show ?case by simp
next
  case (Cons y ps)
  from Cons.prems obtain t where u: "u = y # t" and t: "startsWith t ps"
    by (auto simp: startsWith_Cons)
  from Cons.IH[OF t] u show ?case by auto
qed

lemma includes_set: "includes_str s p \<Longrightarrow> set p \<subseteq> set s"
proof (induction s)
  case Nil
  then show ?case by simp
next
  case (Cons x s)
  then show ?case using startsWith_set[of "x # s" p] by auto
qed

lemma includes_self: "includes_str (p @ t) p"
proof (cases "p @ t")
  case Nil
  then show ?thesis by simp
next
  case (Cons x xs)
  have "startsWith (p @ t) p" by (simp add: startsWith_def)
  with Cons show ?thesis by simp
qed

lemma no_title:
  assumes "83 \<notin> set line"
  shows "\<not> includes_str (trim line) (ascii ''Supporting Sources'')"
proof
  assume "includes_str (trim line) (ascii ''Supporting Sources'')"
  from includes_set[OF this] trim_set[of line] have "83 \<in> set line"
    by (auto simp: ascii_def)
  with assms show False by simp
qed

lemma spaces_no_S: "list_all is_space sp \<Longrightarrow> 83 \<notin> set sp"
  by (auto simp: list_all_iff is_space_def)

text \<open>Texts that are joined with a character the pattern does not have.\<close>

lemma includes_joined:
  assumes c: "c \<notin> set p" and p: "p \<noteq> []"
    and a: "\<not> includes_str A p" "A = [] \<or> last A = c"
    and t: "\<not> includes_str C p"
  shows "\<not> includes_str (A @ C @ [c]) p"
proof
  assume inc: "includes_str (A @ C @ [c]) p"
  have tail: "\<not> includes_str (C @ [c]) p"
    using includes_cut[OF c, of C "[]"] t p by auto
  show False
  proof (cases "A = []")
    case True
    with inc tail show False by simp
  next
    case False
    with a(2) obtain A' where A: "A = A' @ [c]"
      by (metis append_butlast_last_id)
    with inc have "includes_str (A' @ c # (C @ [c])) p" by simp
    from includes_cut[OF c this] tail have "includes_str A' p" by simp
    from includes_append_right[OF this, of "[c]"] A a(1) show False by simp
  qed
qed

text \<open>A pattern that ends with the end anchor matches up to the end of the text.\<close>

lemma rexec_Eol:
  assumes "rexec (p @ [Eol]) s = Some m" and "no_groups p"
  shows "m_end m = length s"
proof -
  from exec_from_rmatch[OF assms(1)[unfolded rexec_def]] obtain k c where
    k: "k \<le> length s" and
    m: "rmatch (p @ [Eol]) (drop k s) (0 + k) \<lparr>opened = [], closed = []\<rparr> = Some (m_end m, c)"
    by blast
  from rmatch_append[OF m assms(2)] obtain u s' where
    u: "drop k s = u @ s'" and
    e: "rmatch [Eol] s' (0 + k + length u) \<lparr>opened = [], closed = []\<rparr> = Some (m_end m, c)"
    by blast
  from e have "s' = []" "m_end m = k + length u" by (auto split: if_splits)
  with u k show ?thesis by (metis add.commute le_add_diff_inverse2 length_drop append_Nil2)
qed

lemma replace_lead_suffix: "\<exists>u. line = u @ replace_first re_lead [] line"
proof (cases "rexec re_lead line")
  case None
  then show ?thesis by (simp add: replace_first_def)
next
  case (Some m)
  then have "m_start m = 0"
    by (auto simp: re_lead_def rexec_Bol split: option.splits)
  with Some have "replace_first re_lead [] line = drop (m_end m) line"
    by (simp add: replace_first_def)
  then show ?thesis by (metis append_take_drop_id)
qed

lemma replace_tail_prefix: "\<exists>w. s = replace_first re_tail [] s @ w"
proof (cases "rexec re_tail s")
  case None
  then show ?thesis by (simp add: replace_first_def)
next
  case (Some m)
  have "re_tail = [Star Space, Lit [BOX_V]] @ [Eol]" by (simp add: re_tail_def)
  with Some rexec_Eol[of "[Star Space, Lit [BOX_V]]" s m] have "m_end m = length s" by simp
  with Some have "replace_first re_tail [] s = take (m_start m) s"
    by (simp add: replace_first_def)
  then show ?thesis by (metis append_take_drop_id)
qed

text \<open>The text that \<open>rag_answer\<close> appends is a piece of the line.\<close>

lemma answer_content_piece:
  "\<exists>a b. line = a @ trim (replace_first re_tail [] (replace_first re_lead [] line)) @ b"
proof -
  let ?y = "replace_first re_lead [] line"
  let ?x = "replace_first re_tail [] ?y"
  from replace_lead_suffix[of line] obtain u where "line = u @ ?y" by blast
  moreover from replace_tail_prefix[of ?y] obtain w where "?y = ?x @ w" by blast
  moreover from trim_decomp[of ?x] obtain a b where "?x = a @ trim ?x @ b" by blast
  ultimately have "line = (u @ a) @ trim ?x @ (b @ w)" by (metis append.assoc)
  then show ?thesis by blast
qed

lemma rtest_Bol_Lit: "rtest [Bol, Lit l] s = startsWith s l"
  by (simp add: rtest_Bol startsWith_def split: option.splits)

lemma startsWith_trim_head:
  assumes "trim line = x # t" and "is_space c \<or> c = x \<Longrightarrow> False"
  shows "\<not> startsWith line [c]"
proof -
  from trim_decomp[of line] assms(1) obtain a b where
    l: "line = a @ x # t @ b" and a: "list_all is_space a" by auto
  show ?thesis
  proof (cases a)
    case Nil
    with l assms(2) show ?thesis by (auto simp: startsWith_Cons)
  next
    case (Cons y a')
    with l a assms(2) show ?thesis by (auto simp: startsWith_Cons)
  qed
qed

text \<open>A star at the end of a pattern takes the whole run; a run up to the end matches.\<close>

lemma rmatch_star_only:
  "rmatch [Star k] s i c = Some (i + length (takeWhile (cls_mem k) s), c)"
  by (induction s arbitrary: i) simp_all

lemma rmatch_star_eol:
  "list_all (cls_mem k) s \<Longrightarrow> rmatch [Star k, Eol] s i c = Some (i + length s, c)"
  by (induction s arbitrary: i) simp_all

lemma exec_from_complete:
  "rmatch re (drop k s) (i + k) \<lparr>opened = [], closed = []\<rparr> = Some r \<Longrightarrow> k \<le> length s
   \<Longrightarrow> exec_from re s i \<noteq> None"
proof (induction re s i arbitrary: k rule: exec_from.induct)
  case (1 re i)
  then show ?case by (auto split: option.splits prod.splits)
next
  case (2 re x xs i)
  show ?case
  proof (cases "rmatch re (x # xs) i \<lparr>opened = [], closed = []\<rparr>")
    case (Some res)
    then show ?thesis by (auto split: prod.splits)
  next
    case None
    with "2.prems" obtain k' where k: "k = Suc k'" by (cases k) auto
    with "2.prems" have "rmatch re (drop k' xs) (Suc i + k') \<lparr>opened = [], closed = []\<rparr> = Some r"
      "k' \<le> length xs" by simp_all
    from "2.IH"[OF None this] None show ?thesis by simp
  qed
qed

section \<open>Patterns on runs of characters\<close>

text \<open>
  A greedy star takes a whole run of its class when the rest of the pattern matches
  after the run; a lazy star takes a run when the rest matches after the run and nowhere
  inside it.
\<close>

lemma rmatch_Star_run:
  assumes "list_all (cls_mem k) xs" and "s = [] \<or> \<not> cls_mem k (hd s)"
    and "rmatch r s (i + length xs) c = Some res"
  shows "rmatch (Star k # r) (xs @ s) i c = Some res"
  using assms
proof (induction xs arbitrary: i)
  case Nil
  then show ?case by (cases s) simp_all
next
  case (Cons x xs)
  from Cons.prems have "rmatch r s (Suc i + length xs) c = Some res" by simp
  with Cons.IH[of "Suc i"] Cons.prems(1,2)
  have "rmatch (Star k # r) (xs @ s) (Suc i) c = Some res" by simp
  with Cons.prems(1) show ?case by simp
qed

lemma rmatch_LazyStar_run:
  assumes "list_all (cls_mem k) xs"
    and "\<And>j. j < length xs \<Longrightarrow> rmatch r (drop j xs @ s) (i + j) c = None"
    and "rmatch r s (i + length xs) c = Some res"
  shows "rmatch (LazyStar k # r) (xs @ s) i c = Some res"
  using assms
proof (induction xs arbitrary: i)
  case Nil
  then show ?case by simp
next
  case (Cons x xs)
  from Cons.prems(2)[of 0] have none: "rmatch r (x # xs @ s) i c = None" by simp
  have "rmatch r (drop j xs @ s) (Suc i + j) c = None" if "j < length xs" for j
    using Cons.prems(2)[of "Suc j"] that by simp
  moreover from Cons.prems(3) have "rmatch r s (Suc i + length xs) c = Some res" by simp
  ultimately have "rmatch (LazyStar k # r) (xs @ s) (Suc i) c = Some res"
    using Cons.IH[of "Suc i"] Cons.prems(1) by simp
  with none Cons.prems(1) show ?case by simp
qed

text \<open>
  The group of the two path patterns: on a text without white space and without vertical
  border, followed by white space and a vertical border, it takes that text.
\<close>

lemma space_line_terminator: "is_line_terminator c \<Longrightarrow> is_space c"
  by (auto simp: is_line_terminator_def is_space_def)

lemma path_group:
  assumes ne: "frag \<noteq> []" and pl: "list_all plain frag" and sp: "list_all is_space sp"
  shows "rmatch [Open 1, One Dot, LazyStar Dot, Close 1, Star Space, Lit [BOX_V]]
           (frag @ sp @ [BOX_V]) i \<lparr>opened = [], closed = []\<rparr>
         = Some (i + length frag + length sp + 1,
                 \<lparr>opened = [(1, i)], closed = [(1, i, i + length frag)]\<rparr>)"
proof -
  from ne obtain x xs where frag: "frag = x # xs" by (cases frag) auto
  let ?c1 = "\<lparr>opened = [(1, i)], closed = []\<rparr> :: caps"
  let ?K = "[Close 1, Star Space, Lit [BOX_V]]"
  let ?res = "(i + length frag + length sp + 1,
                 \<lparr>opened = [(1, i)], closed = [(1, i, i + length frag)]\<rparr>)"
  from pl frag have px: "plain x" and pxs: "list_all plain xs" by simp_all
  have dots: "list_all (cls_mem Dot) xs"
    using pxs by (auto simp: list_all_iff plain_def dest: space_line_terminator)
  have fail: "rmatch ?K (drop j xs @ sp @ [BOX_V]) (Suc i + j) ?c1 = None"
    if "j < length xs" for j
  proof -
    from that obtain y ys where d: "drop j xs = y # ys" and "y \<in> set xs"
      by (metis Cons_nth_drop_Suc nth_mem)
    with pxs have "plain y" by (simp add: list_all_iff)
    then show ?thesis by (simp add: d plain_def)
  qed
  have sp': "list_all (cls_mem Space) sp" using sp by (simp add: list_all_iff)
  have nb: "[BOX_V] = [] \<or> \<not> cls_mem Space (hd [BOX_V])"
    by (simp add: is_space_def BOX_V_def)
  have "rmatch [Lit [BOX_V]] [BOX_V] ((Suc i + length xs) + length sp)
          \<lparr>opened = [(1, i)], closed = [(1, i, Suc i + length xs)]\<rparr> = Some ?res"
    by (simp add: frag)
  from rmatch_Star_run[OF sp' nb this]
  have "rmatch [Star Space, Lit [BOX_V]] (sp @ [BOX_V]) (Suc i + length xs)
          \<lparr>opened = [(1, i)], closed = [(1, i, Suc i + length xs)]\<rparr> = Some ?res" .
  then have last: "rmatch ?K (sp @ [BOX_V]) (Suc i + length xs) ?c1 = Some ?res"
    by simp
  from rmatch_LazyStar_run[OF dots fail last]
  have "rmatch (LazyStar Dot # ?K) (xs @ sp @ [BOX_V]) (Suc i) ?c1 = Some ?res" by simp
  moreover have "\<not> is_line_terminator x"
    using px by (auto simp: plain_def dest: space_line_terminator)
  ultimately show ?thesis by (simp add: frag)
qed


text \<open>The two path patterns on a row of a panel.\<close>

lemma rexec_at_start:
  assumes "rmatch re (x # xs) 0 \<lparr>opened = [], closed = []\<rparr> = Some (e, c)"
  shows "rexec re (x # xs) = Some \<lparr>m_start = 0, m_end = e, m_closed = closed c\<rparr>"
  using assms by (simp add: rexec_def)

lemma plain_not_space: "list_all plain frag \<Longrightarrow> list_all (\<lambda>c. \<not> is_space c) frag"
  by (simp add: list_all_iff plain_def)

lemma pathLine_row:
  assumes ne: "frag \<noteq> []" and pl: "list_all plain frag"
    and sp: "list_all is_space sp4" "list_all is_space sp5"
  shows "\<exists>m. rexec re_pathLine (BOX_V # sp4 @ frag @ sp5 @ [BOX_V]) = Some m
           \<and> grp (BOX_V # sp4 @ frag @ sp5 @ [BOX_V]) m 1 = Some frag"
proof -
  let ?G = "[Open 1, One Dot, LazyStar Dot, Close 1, Star Space, Lit [BOX_V]]"
  let ?b = "Suc (length sp4)"
  let ?c = "\<lparr>opened = [(1, ?b)], closed = [(1, ?b, ?b + length frag)]\<rparr> :: caps"
  let ?e = "?b + length frag + length sp5 + 1"
  from ne pl have hd: "\<not> is_space (hd frag)"
    by (cases frag) (simp_all add: plain_def)
  have sp': "list_all (cls_mem Space) sp4" using sp(1) by (simp add: list_all_iff)
  have nb: "frag @ sp5 @ [BOX_V] = [] \<or> \<not> cls_mem Space (hd (frag @ sp5 @ [BOX_V]))"
    using ne hd by simp
  have "rmatch ?G (frag @ sp5 @ [BOX_V]) (1 + length sp4) \<lparr>opened = [], closed = []\<rparr>
      = Some (?e, ?c)"
    using path_group[OF ne pl sp(2), of "1 + length sp4"] by simp
  from rmatch_Star_run[OF sp' nb this]
  have "rmatch (Star Space # ?G) (sp4 @ frag @ sp5 @ [BOX_V]) 1 \<lparr>opened = [], closed = []\<rparr>
      = Some (?e, ?c)" .
  then have "rmatch re_pathLine (BOX_V # sp4 @ frag @ sp5 @ [BOX_V]) 0
      \<lparr>opened = [], closed = []\<rparr> = Some (?e, ?c)"
    by (simp add: re_pathLine_def)
  from rexec_at_start[OF this] show ?thesis
    by (simp add: grp_def substr_def)
qed

lemma pathMarker_row:
  assumes ne: "frag \<noteq> []" and pl: "list_all plain frag"
    and sp: "list_all is_space sp1" "list_all is_space sp2" "list_all is_space sp3"
  shows "\<exists>m. rexec re_pathMarker (BOX_V # sp1 @ PAGE @ sp2 @ frag @ sp3 @ [BOX_V]) = Some m
           \<and> grp (BOX_V # sp1 @ PAGE @ sp2 @ frag @ sp3 @ [BOX_V]) m 1 = Some frag"
proof -
  let ?G = "[Open 1, One Dot, LazyStar Dot, Close 1, Star Space, Lit [BOX_V]]"
  let ?b = "Suc (length sp1) + 2 + length sp2"
  let ?c = "\<lparr>opened = [(1, ?b)], closed = [(1, ?b, ?b + length frag)]\<rparr> :: caps"
  let ?e = "?b + length frag + length sp3 + 1"
  from ne pl have hd: "\<not> is_space (hd frag)"
    by (cases frag) (simp_all add: plain_def)
  have sp1': "list_all (cls_mem Space) sp1" using sp(1) by (simp add: list_all_iff)
  have sp2': "list_all (cls_mem Space) sp2" using sp(2) by (simp add: list_all_iff)
  have nb2: "frag @ sp3 @ [BOX_V] = [] \<or> \<not> cls_mem Space (hd (frag @ sp3 @ [BOX_V]))"
    using ne hd by simp
  have nb1: "PAGE @ sp2 @ frag @ sp3 @ [BOX_V] = []
      \<or> \<not> cls_mem Space (hd (PAGE @ sp2 @ frag @ sp3 @ [BOX_V]))"
    by (simp add: PAGE_def is_space_def)
  have "rmatch ?G (frag @ sp3 @ [BOX_V]) ((Suc (length sp1) + 2) + length sp2)
      \<lparr>opened = [], closed = []\<rparr> = Some (?e, ?c)"
    using path_group[OF ne pl sp(3), of ?b] by simp
  from rmatch_Star_run[OF sp2' nb2 this]
  have "rmatch (Star Space # ?G) (sp2 @ frag @ sp3 @ [BOX_V]) (Suc (length sp1) + 2)
      \<lparr>opened = [], closed = []\<rparr> = Some (?e, ?c)" .
  then have "rmatch (Lit PAGE # Star Space # ?G) (PAGE @ sp2 @ frag @ sp3 @ [BOX_V])
      (1 + length sp1) \<lparr>opened = [], closed = []\<rparr> = Some (?e, ?c)"
    by (simp add: PAGE_def del: rmatch.simps(4))
  from rmatch_Star_run[OF sp1' nb1 this]
  have "rmatch (Star Space # Lit PAGE # Star Space # ?G)
      (sp1 @ PAGE @ sp2 @ frag @ sp3 @ [BOX_V]) 1 \<lparr>opened = [], closed = []\<rparr>
      = Some (?e, ?c)" .
  then have "rmatch re_pathMarker (BOX_V # sp1 @ PAGE @ sp2 @ frag @ sp3 @ [BOX_V]) 0
      \<lparr>opened = [], closed = []\<rparr> = Some (?e, ?c)"
    by (simp add: re_pathMarker_def del: rmatch.simps(4))
  from rexec_at_start[OF this] show ?thesis
    by (simp add: grp_def substr_def PAGE_def)
qed

lemma trim_plain:
  assumes "frag \<noteq> []" and "list_all plain frag"
  shows "trim frag = frag"
proof -
  from assms have h: "\<not> is_space (hd frag)" and l: "\<not> is_space (last frag)"
    by (simp_all add: list_all_iff plain_def)
  from assms(1) h have "dropWhile is_space frag = frag" by (cases frag) simp_all
  moreover from assms(1) l have "dropWhile is_space (rev frag) = rev frag"
    by (cases "rev frag") (simp_all add: last_rev[symmetric] hd_rev)
  ultimately show ?thesis by (simp add: trim_def)
qed

section \<open>Properties of the search-result parser\<close>

text \<open>The groups that the loop reads are set.\<close>

lemma header_groups:
  assumes "rexec re_header line = Some m"
  shows "\<exists>g2 g3. grp line m 2 = Some g2 \<and> grp line m 3 = Some g3"
  using rexec_grp[OF assms, of 2] rexec_grp[OF assms, of 3] by (auto simp: re_header_def)

lemma file_groups:
  assumes "rexec re_file line = Some m"
  shows "\<exists>g1 g2 g3. grp line m 1 = Some g1 \<and> grp line m 2 = Some g2 \<and> grp line m 3 = Some g3"
  using rexec_grp[OF assms, of 1] rexec_grp[OF assms, of 2] rexec_grp[OF assms, of 3]
  by (auto simp: re_file_def)

lemma sim_groups:
  assumes "rexec re_sim line = Some m"
  shows "\<exists>g1. grp line m 1 = Some g1"
  using rexec_grp[OF assms, of 1] by (auto simp: re_sim_def)

lemma doc_groups:
  assumes "rexec re_doc line = Some m"
  shows "\<exists>g1. grp line m 1 = Some g1"
  using rexec_grp[OF assms, of 1] by (auto simp: re_doc_def)

text \<open>What one turn of the search loop can do to the state.\<close>

lemma search_step_header:
  assumes "rexec re_header line = Some m"
  shows "\<exists>g2 g3. grp line m 2 = Some g2 \<and> grp line m 3 = Some g3 \<and>
           search_step line st =
             Inr \<lparr>results = push_current st,
                  currentResult = Some (new_result (toLowerCase g2) g3)\<rparr>"
  using header_groups[OF assms] assms by (auto simp: search_step_def)

lemma search_step_other:
  assumes "rexec re_header line = None"
  shows "search_step line st = Inr st
    \<or> (\<exists>cur p a b. currentResult st = Some cur \<and>
          search_step line st = Inr (st\<lparr>currentResult :=
            Some (cur\<lparr>file_path := Some p, start_line := Some a, end_line := Some b\<rparr>)\<rparr>))
    \<or> (\<exists>cur m g. currentResult st = Some cur \<and> rexec re_sim line = Some m
          \<and> grp line m 1 = Some g \<and>
          search_step line st = Inr (st\<lparr>currentResult :=
            Some (cur\<lparr>similarity := Some (parseFloat g)\<rparr>)\<rparr>))
    \<or> (\<exists>cur d. currentResult st = Some cur \<and>
          search_step line st = Inr (st\<lparr>currentResult := Some (cur\<lparr>docstring := Some d\<rparr>)\<rparr>))"
proof (cases "currentResult st")
  case None
  with assms show ?thesis by (simp add: search_step_def)
next
  case (Some cur)
  show ?thesis
  proof (cases "rexec re_file line")
    case (Some fm)
    from file_groups[OF Some] obtain g1 g2 g3 where
      "grp line fm 1 = Some g1" "grp line fm 2 = Some g2" "grp line fm 3 = Some g3" by blast
    with assms \<open>currentResult st = Some cur\<close> Some show ?thesis
      by (fastforce simp: search_step_def)
  next
    case None
    note nofile = None
    show ?thesis
    proof (cases "rexec re_sim line")
      case (Some sm)
      from sim_groups[OF Some] obtain g1 where "grp line sm 1 = Some g1" by blast
      with assms \<open>currentResult st = Some cur\<close> nofile Some show ?thesis
        by (fastforce simp: search_step_def)
    next
      case None
      note nosim = None
      show ?thesis
      proof (cases "rexec re_doc line")
        case (Some dm)
        from doc_groups[OF Some] obtain g1 where "grp line dm 1 = Some g1" by blast
        with assms \<open>currentResult st = Some cur\<close> nofile nosim Some show ?thesis
          by (fastforce simp: search_step_def)
      next
        case None
        with assms \<open>currentResult st = Some cur\<close> nofile nosim show ?thesis
          by (simp add: search_step_def)
      qed
    qed
  qed
qed

text \<open>The records, in order, are those of the header lines.\<close>

lemma search_loop_headers:
  "\<exists>st'. search_loop ls st = Inr st' \<and>
     map kind_name (push_current st') =
       map kind_name (push_current st) @ map header_of (filter (rtest re_header) ls)"
proof (induction ls arbitrary: st)
  case Nil
  then show ?case by simp
next
  case (Cons line ls)
  show ?case
  proof (cases "rexec re_header line")
    case (Some m)
    from search_step_header[OF Some, of st] obtain g2 g3 where
      g: "grp line m 2 = Some g2" "grp line m 3 = Some g3" and
      step: "search_step line st = Inr \<lparr>results = push_current st,
                  currentResult = Some (new_result (toLowerCase g2) g3)\<rparr>" by blast
    let ?st1 = "\<lparr>results = push_current st,
                  currentResult = Some (new_result (toLowerCase g2) g3)\<rparr>"
    from Cons.IH[of ?st1] obtain st' where
      l: "search_loop ls ?st1 = Inr st'" and
      k: "map kind_name (push_current st') =
          map kind_name (push_current ?st1) @ map header_of (filter (rtest re_header) ls)"
      by blast
    have h: "header_of line = Some (toLowerCase g2, g3)"
      using Some g by (simp add: header_of_def)
    have p: "map kind_name (push_current ?st1) = map kind_name (push_current st) @ [header_of line]"
      by (simp add: push_current_def h kind_name_def new_result_def)
    have "rtest re_header line" using Some by (simp add: rtest_def)
    with step l k p show ?thesis by simp
  next
    case None
    from search_step_other[OF None, of st] obtain st1 where
      step: "search_step line st = Inr st1" and
      same: "map kind_name (push_current st1) = map kind_name (push_current st)"
      by (auto simp: push_current_def kind_name_def)
    have "\<not> rtest re_header line" using None by (simp add: rtest_def)
    with Cons.IH[of st1] step same show ?thesis by simp
  qed
qed

section \<open>Properties of the records\<close>

text \<open>
  A text that starts with a digit or a dot is read as NaN, as Infinity or as a number that
  is not negative.
\<close>

lemma parseFloat_digit_or_dot:
  assumes "cls_mem DigitOrDot x"
  shows "nonneg_or_nan (parseFloat (x # t))"
proof -
  from assms have ns: "\<not> is_space x" and x: "x \<noteq> 45" "x \<noteq> 43" "x \<noteq> 73"
    by (auto simp: is_space_def is_digit_def)
  have rs: "read_sign (dropWhile is_space (x # t)) = (x # t, False)"
    using ns x by simp
  have inf: "\<not> startsWith (x # t) (ascii ''Infinity'')"
    using x by (simp add: startsWith_def ascii_def)
  have nan: "nonneg_or_nan NaN" by (simp add: nonneg_or_nan_def)
  show ?thesis
    unfolding parseFloat_def rs
    using inf
    by (simp add: Let_def signed_def nan to_double_nonneg del: dropWhile.simps takeWhile.simps)
qed

text \<open>A run of 309 digits is read as Infinity.\<close>

lemma parseFloat_digits:
  assumes "ds \<noteq> []" and "list_all is_digit ds"
  shows "parseFloat ds = to_double (digits_val 10 ds) (Suc 0)"
proof -
  from assms obtain x xs where ds: "ds = x # xs" and x: "is_digit x" by (cases ds) auto
  from x have ns: "\<not> is_space x" and sg: "x \<noteq> 45" "x \<noteq> 43" "x \<noteq> 73"
    by (auto simp: is_space_def is_digit_def)
  have rs: "read_sign (dropWhile is_space ds) = (ds, False)"
    using ns sg by (simp add: ds)
  have inf: "\<not> startsWith ds (ascii ''Infinity'')"
    using sg by (simp add: ds startsWith_def ascii_def)
  have tw: "takeWhile is_digit ds = ds" "dropWhile is_digit ds = []"
    using assms(2) by (simp_all add: list_all_iff)
  show ?thesis
    unfolding parseFloat_def rs
    using inf assms(1) by (simp add: tw Let_def signed_def read_exponent_def)
qed

lemma digits_val_nines: "foldl (\<lambda>a d. a * 10 + digit_val d) a (replicate n 57) = a * 10 ^ n + (10 ^ n - 1)"
proof (induction n arbitrary: a)
  case 0
  then show ?case by simp
next
  case (Suc n)
  have "digit_val 57 = 9" by (simp add: digit_val_def is_digit_def)
  moreover have "(1::nat) \<le> 10 ^ n" by simp
  ultimately show ?case using Suc[of "a * 10 + 9"] by (simp add: algebra_simps)
qed

lemma parseFloat_overflow: "parseFloat (replicate 309 57) = Infinity False"
proof -
  have "list_all is_digit (replicate 309 57)" by (simp add: list_all_iff is_digit_def)
  from parseFloat_digits[OF _ this]
  have "parseFloat (replicate 309 57) = to_double (digits_val 10 (replicate 309 57)) (Suc 0)"
    by simp
  also have "digits_val 10 (replicate 309 57) = 10 ^ 309 - 1"
    using digits_val_nines[of 0 309] by (simp add: digits_val_def)
  also have "to_double (10 ^ 309 - 1) (Suc 0) = Infinity False"
    by (simp add: to_double_overflow)
  finally show ?thesis .
qed

text \<open>Decimal values that are no doubles are rounded.\<close>

lemma parseFloat_rounds: "parseFloat (ascii ''1.00000000000000000001'') = Num 1"
proof -
  have "parseFloat (ascii ''1.00000000000000000001'') =
      to_double 100000000000000000001 100000000000000000000"
    by (simp add: str_defs cls_defs num_defs)
  also have "\<dots> = Num 1"
    by (simp add: to_double_def bitlen.simps round_half_even_def Let_def)
  finally show ?thesis .
qed

lemma parseInt_rounds: "parseInt (ascii ''9007199254740993'') = Num 9007199254740992"
proof -
  have "parseInt (ascii ''9007199254740993'') = to_double 9007199254740993 (Suc 0)"
    by (simp add: str_defs cls_defs digit_val_def digits_val_def signed_def parseInt_def)
  also have "\<dots> = Num 9007199254740992"
    by (simp add: to_double_def bitlen.simps round_half_even_def Let_def)
  finally show ?thesis .
qed

text \<open>Every assignment to a field keeps a record sound, and so does every turn of the search loop.\<close>

lemma sound_new: "sound (new_result t n)"
  by (simp add: sound_def path_fields_together_def similarity_read_def new_result_def)

lemma sound_attach: "sound cur \<Longrightarrow> sound (attach_code cur cl)"
  by (simp add: sound_def path_fields_together_def similarity_read_def attach_code_def)

lemma sound_path:
  "sound cur \<Longrightarrow> sound (cur\<lparr>file_path := Some p, start_line := Some a, end_line := Some b\<rparr>)"
  by (simp add: sound_def path_fields_together_def similarity_read_def)

lemma sound_sim:
  "sound cur \<Longrightarrow> cls_mem DigitOrDot x \<Longrightarrow> sound (cur\<lparr>similarity := Some (parseFloat (x # t))\<rparr>)"
  using parseFloat_digit_or_dot[of x t]
  by (simp add: sound_def path_fields_together_def similarity_read_def)

lemma sound_doc: "sound cur \<Longrightarrow> sound (cur\<lparr>docstring := Some d\<rparr>)"
  by (simp add: sound_def path_fields_together_def similarity_read_def)

lemma search_step_sound:
  assumes "list_all sound (push_current st)"
  shows "\<exists>st'. search_step line st = Inr st' \<and> list_all sound (push_current st')"
proof (cases "rexec re_header line")
  case (Some m)
  from search_step_header[OF Some, of st] assms show ?thesis
    by (auto simp: push_current_def sound_new)
next
  case None
  from search_step_other[OF None, of st]
  consider "search_step line st = Inr st"
    | cur p a b where "currentResult st = Some cur"
        "search_step line st = Inr (st\<lparr>currentResult :=
            Some (cur\<lparr>file_path := Some p, start_line := Some a, end_line := Some b\<rparr>)\<rparr>)"
    | cur m g where "currentResult st = Some cur" "rexec re_sim line = Some m"
        "grp line m 1 = Some g"
        "search_step line st = Inr (st\<lparr>currentResult :=
            Some (cur\<lparr>similarity := Some (parseFloat g)\<rparr>)\<rparr>)"
    | cur d where "currentResult st = Some cur"
        "search_step line st = Inr (st\<lparr>currentResult := Some (cur\<lparr>docstring := Some d\<rparr>)\<rparr>)"
    by blast
  then show ?thesis
  proof cases
    case 1
    with assms show ?thesis by simp
  next
    case 2
    with assms show ?thesis by (simp add: push_current_def sound_path)
  next
    case 3
    from sim_capture[OF 3(2)] 3(3) obtain x t where "g = x # t" "cls_mem DigitOrDot x" by auto
    with 3 assms show ?thesis by (simp add: push_current_def sound_sim del: cls_mem.simps)
  next
    case 4
    with assms show ?thesis by (simp add: push_current_def sound_doc)
  qed
qed

lemma search_loop_sound:
  "list_all sound (push_current st) \<Longrightarrow>
   \<exists>st'. search_loop ls st = Inr st' \<and> list_all sound (push_current st')"
proof (induction ls arbitrary: st)
  case Nil
  then show ?case by simp
next
  case (Cons line ls)
  from search_step_sound[OF Cons.prems, of line] obtain st1 where
    "search_step line st = Inr st1" "list_all sound (push_current st1)" by blast
  with Cons.IH[of st1] show ?case by simp
qed

lemma parseSearchOutput_sound:
  "\<exists>rs. parseSearchOutput output = Inr rs \<and> list_all sound rs"
proof -
  have "list_all sound (push_current \<lparr>results = [], currentResult = None\<rparr>)"
    by (simp add: push_current_def)
  from search_loop_sound[OF this, of "split_lines (replace_all re_cr [] output)"]
  show ?thesis by (auto simp: parseSearchOutput_def)
qed

section \<open>Properties of the RAG parser\<close>

text \<open>The groups that the loop reads are set.\<close>

lemma boxStart_groups:
  assumes "rexec re_boxStart line = Some m"
  shows "\<exists>g2 g3. grp line m 2 = Some g2 \<and> grp line m 3 = Some g3"
  using rexec_grp[OF assms, of 2] rexec_grp[OF assms, of 3] by (auto simp: re_boxStart_def)

lemma pathMarker_groups:
  assumes "rexec re_pathMarker line = Some m"
  shows "\<exists>g1. grp line m 1 = Some g1"
  using rexec_grp[OF assms, of 1] by (auto simp: re_pathMarker_def)

lemma pathLine_groups:
  assumes "rexec re_pathLine line = Some m"
  shows "\<exists>g1. grp line m 1 = Some g1"
  using rexec_grp[OF assms, of 1] by (auto simp: re_pathLine_def)

lemma complete_groups:
  assumes "rexec re_complete s = Some m"
  shows "\<exists>g1 g2 g3. grp s m 1 = Some g1 \<and> grp s m 2 = Some g2 \<and> grp s m 3 = Some g3"
  using rexec_grp[OF assms, of 1] rexec_grp[OF assms, of 2] rexec_grp[OF assms, of 3]
  by (auto simp: re_complete_def)

lemma ragDoc_groups:
  assumes "rexec re_ragDoc line = Some m"
  shows "\<exists>g1. grp line m 1 = Some g1"
  using rexec_grp[OF assms, of 1] by (auto simp: re_ragDoc_def)

lemma step_ok_Inr [simp]:
  "step_ok st (Inr (st', again)) =
     (rag_good st' \<and> answer st' = answer st
      \<and> inSourcesSection st' = inSourcesSection st
      \<and> (again \<longrightarrow> collectingCode st \<and> \<not> collectingCode st'))"
  by (simp add: step_ok_def)

text \<open>Every branch of the sources section makes a good turn.\<close>

lemma rag_code_ok:
  assumes "rag_good st"
  shows "step_ok st (rag_code line trimmed st)"
proof (cases "currentSource st")
  case None
  with assms show ?thesis
    by (auto simp: rag_code_def rag_good_def rag_inv_def)
next
  case (Some cur)
  with assms have "sound cur" by (simp add: rag_good_def)
  with assms Some show ?thesis
    by (auto simp: rag_code_def rag_good_def rag_inv_def sound_attach)
qed

lemma rag_box_start_ok:
  assumes "rag_good st" and "rexec re_boxStart line = Some m" and "inSourcesSection st"
  shows "step_ok st (rag_box_start line m st)"
proof -
  from boxStart_groups[OF assms(2)] obtain g2 g3 where
    g: "grp line m 2 = Some g2" "grp line m 3 = Some g3" by blast
  show ?thesis
  proof (cases "currentSource st")
    case None
    with assms g show ?thesis
      by (auto simp: rag_box_start_def rag_good_def rag_inv_def sound_new)
  next
    case (Some cur)
    with assms have "sound cur" by (simp add: rag_good_def)
    with assms g Some show ?thesis
      by (auto simp: rag_box_start_def rag_good_def rag_inv_def sound_new sound_attach)
  qed
qed

lemma rag_box_ok:
  assumes good: "rag_good st" and box: "inSourceBox st"
  shows "step_ok st (rag_box line trimmed st)"
proof -
  from good box obtain cur where cur: "currentSource st = Some cur" and sc: "sound cur"
    and nc: "\<not> collectingCode st"
    by (auto simp: rag_good_def rag_inv_def)
  have flag: "rag_good (st\<lparr>collectingFilePath := b, filePathLines := fpl\<rparr>)" for b fpl
    using good by (simp add: rag_good_def rag_inv_def)
  have flag1: "rag_good (st\<lparr>collectingFilePath := b\<rparr>)" for b
    using good by (simp add: rag_good_def rag_inv_def)
  have flag2: "rag_good (st\<lparr>filePathLines := fpl\<rparr>)" for fpl
    using good by (simp add: rag_good_def rag_inv_def)
  have upd: "sound c' \<Longrightarrow> rag_good (st\<lparr>currentSource := Some c'\<rparr>)" for c'
    using good cur by (simp add: rag_good_def rag_inv_def)
  have upd2: "sound c' \<Longrightarrow>
      rag_good (st\<lparr>currentSource := Some c', collectingFilePath := False, filePathLines := []\<rparr>)"
    for c'
    using good cur by (simp add: rag_good_def rag_inv_def)
  show ?thesis
  proof (cases "includes_str line PAGE \<and> \<not> collectingFilePath st")
    case True
    show ?thesis
    proof (cases "rexec re_pathMarker line")
      case None
      with True flag1 show ?thesis by (simp add: rag_box_def)
    next
      case (Some pm)
      from pathMarker_groups[OF Some] obtain g1 where "grp line pm 1 = Some g1" by blast
      with True Some flag show ?thesis by (simp add: rag_box_def Let_def)
    qed
  next
    case False
    note notpage = False
    show ?thesis
    proof (cases "collectingFilePath st")
      case True
      show ?thesis
      proof (cases "rexec re_pathLine line")
        case None
        with notpage True good show ?thesis by (simp add: rag_box_def)
      next
        case (Some plm)
        from pathLine_groups[OF Some] obtain g1 where g1: "grp line plm 1 = Some g1" by blast
        let ?content = "trim g1"
        let ?fpl = "filePathLines st @ [?content]"
        show ?thesis
        proof (cases "?content \<noteq> [] \<and> \<not> rtest re_border ?content
                     \<and> \<not> includes_str ?content CHART \<and> \<not> includes_str ?content MEMO")
          case False
          with notpage True Some g1 good show ?thesis
            by (auto simp: rag_box_def Let_def)
        next
          case pushed: True
          show ?thesis
          proof (cases "rexec re_complete (concat ?fpl)")
            case None
            with notpage True Some g1 pushed flag2 show ?thesis
              by (simp add: rag_box_def Let_def)
          next
            case (Some cm)
            from complete_groups[OF Some] obtain c1 c2 c3 where
              "grp (concat ?fpl) cm 1 = Some c1" "grp (concat ?fpl) cm 2 = Some c2"
              "grp (concat ?fpl) cm 3 = Some c3" by blast
            with notpage True \<open>rexec re_pathLine line = Some plm\<close> g1 pushed Some cur
              upd2[OF sound_path[OF sc]]
            show ?thesis by (simp add: rag_box_def Let_def)
          qed
        qed
      qed
    next
      case False
      note notcoll = False
      show ?thesis
      proof (cases "rexec re_ragSim line")
        case (Some sm)
        from ragSim_capture[OF Some] obtain x t where
          "grp line sm 1 = Some (x # t)" "cls_mem DigitOrDot x" by blast
        with notpage notcoll Some cur upd[OF sound_sim[OF sc]] show ?thesis
          by (simp add: rag_box_def del: cls_mem.simps)
      next
        case None
        note nosim = None
        show ?thesis
        proof (cases "rexec re_ragDoc line")
          case (Some dm)
          from ragDoc_groups[OF Some] obtain g1 where "grp line dm 1 = Some g1" by blast
          with notpage notcoll nosim Some cur upd[OF sound_doc[OF sc]] show ?thesis
            by (simp add: rag_box_def)
        next
          case None
          have "step_ok st (rag_code line trimmed st)" by (rule rag_code_ok[OF good])
          moreover have "rag_good (st\<lparr>inSourceBox := False, collectingCode := True,
                               collectingFilePath := False\<rparr>)"
            using good cur by (simp add: rag_good_def rag_inv_def)
          ultimately show ?thesis
            using notpage notcoll nosim None cur by (simp add: rag_box_def)
        qed
      qed
    qed
  qed
qed

lemma rag_sources_ok:
  assumes "rag_good st" and "inSourcesSection st"
  shows "step_ok st (rag_sources line trimmed st)"
  using assms rag_box_start_ok rag_box_ok rag_code_ok
  by (simp add: rag_sources_def split: option.splits)

text \<open>Every turn of the loop keeps the invariant and raises nothing.\<close>

lemma rag_answer_good:
  assumes "rag_good st"
  shows "\<exists>st'. rag_answer line st = Inr (st', False) \<and> rag_good st'"
  using assms by (auto simp: rag_answer_def Let_def rag_good_def rag_inv_def)

lemma rag_step_good:
  assumes "rag_good st"
  shows "\<exists>st' again. rag_step line st = Inr (st', again) \<and> rag_good st'
           \<and> (again \<longrightarrow> collectingCode st \<and> \<not> collectingCode st')"
proof -
  have flags: "rag_good (st\<lparr>inAnswerSection := a\<rparr>)"
    "rag_good (st\<lparr>inAnswerSection := a, inSourcesSection := True\<rparr>)" for a
    using assms by (simp_all add: rag_good_def rag_inv_def)
  from rag_sources_ok[OF assms, of line "trim line"]
  have src: "inSourcesSection st \<Longrightarrow>
      \<exists>st' again. rag_sources line (trim line) st = Inr (st', again) \<and> rag_good st'
           \<and> (again \<longrightarrow> collectingCode st \<and> \<not> collectingCode st')"
    by (auto simp: step_ok_def split: sum.splits)
  from rag_answer_good[OF assms, of line]
  have ans: "\<exists>st' again. rag_answer line st = Inr (st', again) \<and> rag_good st'
           \<and> (again \<longrightarrow> collectingCode st \<and> \<not> collectingCode st')"
    by auto
  show ?thesis
    unfolding rag_step_def Let_def
    using assms flags src ans by auto
qed

text \<open>
  A line is read again only in the sources section, and the turn before leaves the
  answer as it was.
\<close>

lemma rag_step_again:
  assumes "rag_good st" and "rag_step line st = Inr (st', True)"
  shows "inSourcesSection st \<and> inSourcesSection st' \<and> answer st' = answer st"
proof (cases "inSourcesSection st")
  case True
  from rag_sources_ok[OF assms(1) True, of line "trim line"]
  have "rag_sources line (trim line) st = Inr (st', True) \<Longrightarrow>
      answer st' = answer st \<and> inSourcesSection st' = inSourcesSection st"
    by (simp add: step_ok_def)
  with assms(2) True show ?thesis
    by (auto simp: rag_step_def Let_def split: if_splits)
next
  case False
  with assms(2) show ?thesis
    by (auto simp: rag_step_def rag_answer_def Let_def split: if_splits)
qed

text \<open>
  The loop ends on every list of lines: a line is read at most twice. It keeps every
  property of the state and of the lines still to read that each turn keeps.
\<close>

lemma rag_loop_invariant_lines:
  assumes step: "\<And>line rest st st' again.
      rag_good st \<Longrightarrow> Q (line # rest) st \<Longrightarrow> rag_step line st = Inr (st', again) \<Longrightarrow>
      (if again then Q (line # rest) st' else Q rest st')"
  shows "rag_good st \<Longrightarrow> Q ls st \<Longrightarrow>
         \<exists>st'. rag_loop ls st = Some (Inr st') \<and> rag_good st' \<and> Q [] st'"
proof (induction ls arbitrary: st)
  case Nil
  then show ?case by (simp add: rag_loop_Nil)
next
  case (Cons line ls)
  from rag_step_good[OF Cons.prems(1), of line] obtain st1 again1 where
    s1: "rag_step line st = Inr (st1, again1)" and g1: "rag_good st1"
    and a1: "again1 \<longrightarrow> collectingCode st \<and> \<not> collectingCode st1" by blast
  show ?case
  proof (cases again1)
    case False
    with step[OF Cons.prems s1] have "Q ls st1" by simp
    with s1 False Cons.IH[OF g1] show ?thesis by (simp add: rag_loop_Cons)
  next
    case True
    with step[OF Cons.prems s1] have q1: "Q (line # ls) st1" by simp
    from rag_step_good[OF g1, of line] obtain st2 again2 where
      s2: "rag_step line st1 = Inr (st2, again2)" and g2: "rag_good st2"
      and a2: "again2 \<longrightarrow> collectingCode st1 \<and> \<not> collectingCode st2" by blast
    from True a1 a2 have na: "\<not> again2" by simp
    with step[OF g1 q1 s2] have "Q ls st2" by simp
    with s2 na Cons.IH[OF g2]
    have "\<exists>st'. rag_loop (line # ls) st1 = Some (Inr st') \<and> rag_good st' \<and> Q [] st'"
      by (simp add: rag_loop_Cons)
    moreover from s1 True have "rag_loop (line # ls) st = rag_loop (line # ls) st1"
      by (subst rag_loop_Cons) simp
    ultimately show ?thesis by simp
  qed
qed

lemma rag_loop_invariant:
  assumes step: "\<And>line st st' again.
      rag_good st \<Longrightarrow> Q st \<Longrightarrow> rag_step line st = Inr (st', again) \<Longrightarrow> Q st'"
  shows "rag_good st \<Longrightarrow> Q st \<Longrightarrow>
         \<exists>st'. rag_loop ls st = Some (Inr st') \<and> rag_good st' \<and> Q st'"
  using rag_loop_invariant_lines[where Q = "\<lambda>ls. Q" and ls = ls and st = st] step
  by (metis (full_types))

lemma rag_loop_good:
  "rag_good st \<Longrightarrow> \<exists>st'. rag_loop ls st = Some (Inr st') \<and> rag_good st'"
  using rag_loop_invariant[where Q = "\<lambda>st. True"] by simp

text \<open>The loop on a text in two parts.\<close>

lemma rag_loop_single: "rag_step line st = Inr (st', False) \<Longrightarrow> rag_loop [line] st = Some (Inr st')"
  by (subst rag_loop_Cons) (simp add: rag_loop_Nil)

lemma rag_loop_append:
  assumes "rag_good st"
  shows "\<exists>st'. rag_loop xs st = Some (Inr st') \<and> rag_good st'
           \<and> rag_loop (xs @ ys) st = rag_loop ys st'"
proof -
  define R where "R = rag_loop (xs @ ys) st"
  have "\<exists>st'. rag_loop xs st = Some (Inr st') \<and> rag_good st' \<and> rag_loop ([] @ ys) st' = R"
  proof (rule rag_loop_invariant_lines[where Q = "\<lambda>ls st. rag_loop (ls @ ys) st = R"])
    show "if again then rag_loop ((line # rest) @ ys) st' = R else rag_loop (rest @ ys) st' = R"
      if "rag_good st0" "rag_loop ((line # rest) @ ys) st0 = R"
        "rag_step line st0 = Inr (st', again)"
      for line rest st0 st' again
    proof -
      have "rag_loop (line # (rest @ ys)) st0 =
          (if again then rag_loop (line # (rest @ ys)) st' else rag_loop (rest @ ys) st')"
        using that(3) by (subst rag_loop_Cons) simp
      with that(2) show ?thesis by (cases again) simp_all
    qed
    show "rag_good st" by (rule assms)
    show "rag_loop (xs @ ys) st = R" by (simp add: R_def)
  qed
  then show ?thesis by (auto simp: R_def)
qed

lemma rag_loop_split:
  assumes "rag_good st" and "rag_loop xs st = Some (Inr st')"
  shows "rag_loop (xs @ ys) st = rag_loop ys st' \<and> rag_good st'"
  using rag_loop_append[OF assms(1), of xs ys] assms(2) by auto

text \<open>
  The sources section, once open, stays open; every turn appends to the sources or
  leaves them; a line that the bottom-border pattern matches starts with the corner.
\<close>

lemma rag_step_keeps_sources:
  assumes "rag_good st" and "inSourcesSection st" and "rag_step line st = Inr (st', again)"
  shows "inSourcesSection st'"
proof -
  from rag_sources_ok[OF assms(1,2), of line "trim line"]
  have "rag_sources line (trim line) st = Inr (st', again) \<Longrightarrow> inSourcesSection st'"
    using assms(2) by (simp add: step_ok_def)
  with assms(2,3) show ?thesis
    by (auto simp: rag_step_def Let_def split: if_splits)
qed

lemma rag_step_sources_grow:
  assumes "rag_good st" and "rag_step line st = Inr (st', again)"
  shows "\<exists>new. sources st' = sources st @ new"
proof -
  have code: "rag_code line t st = Inr (st', again) \<Longrightarrow> \<exists>new. sources st' = sources st @ new"
    for t
    by (auto simp: rag_code_def split: if_splits option.splits)
  have start: "rag_box_start line m st = Inr (st', again) \<Longrightarrow>
      \<exists>new. sources st' = sources st @ new" for m
    by (auto simp: rag_box_start_def need_def Let_def split: if_splits option.splits)
  have box: "rag_box line t st = Inr (st', again) \<Longrightarrow> \<exists>new. sources st' = sources st @ new"
    for t
    using code[of t]
    by (auto simp: rag_box_def need_def Let_def split: if_splits option.splits prod.splits)
  from assms(2) code start box show ?thesis
    by (auto simp: rag_step_def rag_sources_def rag_answer_def Let_def
        split: if_splits option.splits)
qed

lemma boxEnd_head:
  assumes "rtest re_boxEnd line"
  shows "\<exists>rest. line = BOX_BL # rest"
  using assms
  by (auto simp: re_boxEnd_def rtest_Bol split: option.splits dest: strip_prefix_consumes)

text \<open>Both parsers of the search output return sound records.\<close>

lemma rag_init_good: "rag_good rag_init"
  by (simp add: rag_good_def rag_inv_def rag_init_def)

lemma rag_finish_sound:
  assumes "rag_good st"
  shows "list_all sound (snd (rag_finish st))"
  using assms
  by (auto simp: rag_finish_def rag_good_def sound_attach split: option.splits)

lemma parseRagOutput_sound:
  "\<exists>ans srcs. parseRagOutput output = Some (Inr (ans, srcs)) \<and> list_all sound srcs"
proof -
  from rag_loop_good[OF rag_init_good, of "split_lines (replace_all re_cr [] output)"]
  obtain st' where l: "rag_loop (split_lines (replace_all re_cr [] output)) rag_init = Some (Inr st')"
    and g: "rag_good st'" by blast
  from rag_finish_sound[OF g] l show ?thesis
    by (cases "rag_finish st'") (simp add: parseRagOutput_def)
qed

text \<open>The loop of the PR-summary parser raises nothing.\<close>

lemma fileName_groups:
  assumes "rexec re_fileName s = Some m"
  shows "\<exists>g1. grp s m 1 = Some g1"
  using rexec_grp[OF assms, of 1] by (auto simp: re_fileName_def)

lemma pr_step_total: "\<exists>st'. pr_step line st = Inr st'"
proof (cases "rexec re_fileName (trim line)")
  case None
  then show ?thesis by (simp add: pr_step_def Let_def)
next
  case (Some fm)
  from fileName_groups[OF Some] obtain g1 where "grp (trim line) fm 1 = Some g1" by blast
  with Some show ?thesis by (simp add: pr_step_def Let_def)
qed

lemma pr_loop_total: "\<exists>st'. pr_loop ls st = Inr st'"
proof (induction ls arbitrary: st)
  case Nil
  then show ?case by simp
next
  case (Cons line ls)
  from pr_step_total[of line st] obtain st1 where "pr_step line st = Inr st1" by blast
  with Cons.IH[of st1] show ?case by simp
qed

lemma parsePRSummary_total: "\<exists>r. parsePRSummary summary = Inr r"
  using pr_loop_total[of "split_lines summary" pr_init]
  by (auto simp: parsePRSummary_def)

subsection \<open>The answer text\<close>

text \<open>The answer never holds the marker.\<close>

lemma answer_marker_facts:
  "answer_marker \<noteq> []" "32 \<notin> set answer_marker"
  "\<forall>x. is_space x \<longrightarrow> x \<notin> set answer_marker"
  by (auto simp: answer_marker_def ascii_def is_space_def)

lemma rag_answer_clean:
  assumes clean: "answer_clean st" and line: "\<not> includes_str (trim line) answer_marker"
    and step: "rag_answer line st = Inr (st', again)"
  shows "answer_clean st'"
proof -
  let ?content = "trim (replace_first re_tail [] (replace_first re_lead [] line))"
  from line have "\<not> includes_str line answer_marker"
    using includes_trim[of answer_marker line] answer_marker_facts by simp
  moreover from answer_content_piece[of line] obtain a b where "line = a @ ?content @ b"
    by blast
  ultimately have c: "\<not> includes_str ?content answer_marker"
    using includes_piece[of ?content answer_marker a b] by auto
  from clean have "\<not> includes_str (answer st @ ?content @ [32]) answer_marker"
    using includes_joined[of 32 answer_marker "answer st" ?content] c answer_marker_facts
    by (simp add: answer_clean_def)
  then have "answer_clean (st\<lparr>answer := answer st @ ?content @ ascii '' ''\<rparr>)"
    by (simp add: answer_clean_def ascii_def)
  with clean step show ?thesis
    by (auto simp: rag_answer_def Let_def answer_clean_def split: if_splits)
qed

lemma rag_step_clean:
  assumes good: "rag_good st" and clean: "answer_clean st"
    and step: "rag_step line st = Inr (st', again)"
  shows "answer_clean st'"
proof (cases "inSourcesSection st")
  case True
  from rag_sources_ok[OF good True, of line "trim line"]
  have "rag_sources line (trim line) st = Inr (st', again) \<Longrightarrow> answer st' = answer st"
    by (auto simp: step_ok_def)
  with step clean True show ?thesis
    by (auto simp: rag_step_def Let_def answer_clean_def split: if_splits)
next
  case False
  have "rag_answer line st = Inr (st', again) \<Longrightarrow>
      \<not> includes_str (trim line) (ascii ''Answer:'') \<Longrightarrow> answer_clean st'"
    using rag_answer_clean[OF clean _ ] by (simp add: answer_marker_def)
  with step clean False show ?thesis
    by (auto simp: rag_step_def Let_def answer_clean_def split: if_splits)
qed

lemma parseRagOutput_no_marker:
  "\<exists>ans srcs. parseRagOutput s = Some (Inr (ans, srcs))
     \<and> \<not> includes_str ans (ascii ''Answer:'')"
proof -
  let ?ls = "split_lines (replace_all re_cr [] s)"
  have init: "answer_clean rag_init"
    using answer_marker_facts(1) by (simp add: answer_clean_def rag_init_def)
  have "\<exists>st'. rag_loop ?ls rag_init = Some (Inr st') \<and> rag_good st' \<and> answer_clean st'"
  proof (rule rag_loop_invariant[where Q = answer_clean])
    show "answer_clean st'"
      if "rag_good st" "answer_clean st" "rag_step line st = Inr (st', again)"
      for line st st' again
      using that by (rule rag_step_clean)
  qed (rule rag_init_good, rule init)
  then obtain st' where l: "rag_loop ?ls rag_init = Some (Inr st')"
    and c: "answer_clean st'" by blast
  from c have "\<not> includes_str (trim (answer st')) answer_marker"
    using includes_trim[of answer_marker "answer st'"] answer_marker_facts
    by (simp add: answer_clean_def)
  with l show ?thesis
    by (cases "rag_finish st'") (auto simp: parseRagOutput_def rag_finish_def answer_marker_def)
qed

text \<open>
  What the answer branch makes of a line without border characters, of a line made of
  horizontal borders and corners, and of a text between two vertical borders.
\<close>

lemma border_free_piece: "border_free (a @ t @ b) \<Longrightarrow> border_free t"
  by (simp add: border_free_def)

lemma border_free_append [simp]: "border_free (a @ b) = (border_free a \<and> border_free b)"
  by (simp add: border_free_def)

lemma border_free_trim: "border_free s \<Longrightarrow> border_free (trim s)"
  using trim_decomp[of s] border_free_piece by metis

lemma border_free_take: "border_free s \<Longrightarrow> border_free (take n s)"
  by (metis append_take_drop_id border_free_append)

lemma border_free_dropWhile: "border_free s \<Longrightarrow> border_free (dropWhile P s)"
  by (metis takeWhile_dropWhile_id border_free_append)

lemma content_plain:
  assumes "border_free line"
  shows "border_free (answer_content line)"
  using answer_content_piece[of line] assms border_free_piece
  unfolding answer_content_def by metis

lemma content_rule:
  assumes "rule_line line"
  shows "answer_content line = [] \<or> rtest re_border (answer_content line)"
proof (cases "answer_content line")
  case Nil
  then show ?thesis by simp
next
  case (Cons x xs)
  from answer_content_piece[of line] obtain a b where "line = a @ answer_content line @ b"
    unfolding answer_content_def by blast
  with assms Cons have "list_all (cls_mem (OneOf [BOX_H, BOX_TL, BOX_TR, BOX_BL, BOX_BR])) (x # xs)"
    by (metis list_all_append rule_line_def)
  then show ?thesis
    using rmatch_star_eol[of "OneOf [BOX_H, BOX_TL, BOX_TR, BOX_BL, BOX_BR]" xs]
    by (simp add: Cons re_border_def rtest_Bol del: cls_mem.simps)
qed

lemma replace_lead_framed:
  "replace_first re_lead [] (BOX_V # rest) = dropWhile is_space rest"
proof -
  have "rexec re_lead (BOX_V # rest) =
      Some \<lparr>m_start = 0, m_end = Suc (length (takeWhile is_space rest)), m_closed = []\<rparr>"
    using rmatch_star_only[of Space rest]
    by (simp add: re_lead_def rexec_Bol del: rmatch.simps(4))
       (simp add: comp_def cong: takeWhile_cong)
  then show ?thesis
    by (simp add: replace_first_def dropWhile_eq_drop)
qed

lemma dropWhile_snoc: "\<not> P v \<Longrightarrow> dropWhile P (b @ [v]) = dropWhile P b @ [v]"
  by (induction b) auto

lemma replace_tail_framed:
  "\<exists>n. replace_first re_tail [] (body @ [BOX_V]) = take n body"
proof -
  let ?y = "body @ [BOX_V]"
  let ?c0 = "\<lparr>opened = [], closed = []\<rparr>"
  have "rmatch re_tail (drop (length body) ?y) (0 + length body) ?c0
      = Some (Suc (length body), ?c0)"
    by (simp add: re_tail_def is_space_def BOX_V_def)
  from exec_from_complete[OF this] obtain m where m: "rexec re_tail ?y = Some m"
    by (auto simp: rexec_def)
  have rt: "re_tail = [Star Space, Lit [BOX_V]] @ [Eol]"
    by (simp add: re_tail_def)
  from m rexec_Eol[of "[Star Space, Lit [BOX_V]]" ?y m] rt
  have e: "m_end m = length ?y" by simp
  from exec_from_rmatch[OF m[unfolded rexec_def]] obtain k c where
    k: "m_start m = 0 + k" and
    r: "rmatch re_tail (drop k ?y) (0 + k) ?c0 = Some (m_end m, c)" by blast
  have ng: "no_groups [Star Space]" by simp
  from r have r': "rmatch ([Star Space] @ [Lit [BOX_V], Eol]) (drop k ?y) (0 + k) ?c0
      = Some (m_end m, c)" by (simp add: re_tail_def)
  from rmatch_append[OF r' ng] obtain u s' where
    "drop k ?y = u @ s'" and
    "rmatch [Lit [BOX_V], Eol] s' (0 + k + length u) ?c0 = Some (m_end m, c)" by blast
  then have "k < m_end m"
    by (auto split: option.splits if_splits)
  with k e have "m_start m \<le> length body" by simp
  with m e have "replace_first re_tail [] ?y = take (m_start m) body"
    by (simp add: replace_first_def)
  then show ?thesis by blast
qed

lemma content_framed:
  assumes "framed line"
  shows "border_free (answer_content line)"
proof -
  from assms obtain rest where line: "line = BOX_V # rest" and ne: "rest \<noteq> []"
    and l: "last rest = BOX_V" and bf: "border_free (butlast rest)"
    by (auto simp: framed_def split: list.splits)
  let ?body = "butlast rest"
  from ne l have rest: "rest = ?body @ [BOX_V]" by (metis append_butlast_last_id)
  have "\<not> is_space BOX_V" by (simp add: is_space_def BOX_V_def)
  then have "dropWhile is_space (?body @ [BOX_V]) = dropWhile is_space ?body @ [BOX_V]"
    by (rule dropWhile_snoc)
  with rest line have y: "replace_first re_lead [] line = dropWhile is_space ?body @ [BOX_V]"
    by (metis replace_lead_framed)
  from replace_tail_framed[of "dropWhile is_space ?body"] obtain n where
    "replace_first re_tail [] (replace_first re_lead [] line) = take n (dropWhile is_space ?body)"
    unfolding y by blast
  with bf show ?thesis
    by (simp add: answer_content_def border_free_trim border_free_take border_free_dropWhile)
qed

text \<open>White space is no border character, so \<open>trim\<close> removes none.\<close>

lemma space_not_border: "is_space c \<Longrightarrow> \<not> is_border c"
  by (auto simp: is_space_def is_border_def glyph_defs)

lemma border_free_spaces: "list_all is_space a \<Longrightarrow> border_free a"
  by (induction a) (simp_all add: border_free_def space_not_border)

lemma border_free_trim_iff: "border_free (trim s) = border_free s"
proof -
  from trim_decomp[of s] obtain a b where s: "s = a @ trim s @ b"
    and a: "list_all is_space a" and b: "list_all is_space b" by blast
  have "border_free s = border_free (a @ trim s @ b)" using s by simp
  also have "\<dots> = border_free (trim s)"
    using border_free_spaces[OF a] border_free_spaces[OF b] by simp
  finally show ?thesis by simp
qed

text \<open>The appended texts hold a border character when one of the kept texts does.\<close>

lemma answer_pieces_Nil [simp]: "answer_pieces [] = []"
  by (simp add: answer_pieces_def)

lemma answer_pieces_Cons:
  "answer_pieces (l # ls) =
     (if answer_kept l then answer_content l @ ascii '' '' else []) @ answer_pieces ls"
  by (simp add: answer_pieces_def)

lemma answer_pieces_border_free:
  "border_free (answer_pieces ls) =
     list_all (\<lambda>l. border_free (answer_content l) \<or> rtest re_border (answer_content l)) ls"
proof (induction ls)
  case Nil
  then show ?case by (simp add: border_free_def)
next
  case (Cons l ls)
  have sp: "border_free (ascii '' '')"
    by (simp add: border_free_def is_border_def ascii_def glyph_defs)
  have mk: "border_free (ascii ''Answer:'')"
    by (simp add: border_free_def is_border_def ascii_def glyph_defs)
  have nil: "border_free []" by (simp add: border_free_def)
  show ?case
  proof (cases "answer_kept l")
    case True
    then have "\<not> rtest re_border (answer_content l)" by (simp add: answer_kept_def)
    with True Cons.IH sp show ?thesis by (simp add: answer_pieces_Cons)
  next
    case False
    then have "border_free (answer_content l) \<or> rtest re_border (answer_content l)"
      using mk nil by (auto simp: answer_kept_def)
    with False Cons.IH show ?thesis by (simp add: answer_pieces_Cons)
  qed
qed

text \<open>
  The loop builds the answer from the collected lines: at every turn the answer so far,
  followed by what the lines still to read will add, is the same text.
\<close>

lemma rag_step_answer_ahead:
  assumes good: "rag_good st"
    and q: "(inSourcesSection st \<or> \<not> collectingCode st) \<and> answer_ahead (line # rest) st = A"
    and step: "rag_step line st = Inr (st', again)"
  shows "if again
         then (inSourcesSection st' \<or> \<not> collectingCode st') \<and> answer_ahead (line # rest) st' = A
         else (inSourcesSection st' \<or> \<not> collectingCode st') \<and> answer_ahead rest st' = A"
proof (cases "inSourcesSection st")
  case True
  from rag_sources_ok[OF good True, of line "trim line"]
  have "rag_sources line (trim line) st = Inr (st', again) \<Longrightarrow>
      answer st' = answer st \<and> inSourcesSection st' = inSourcesSection st"
    by (simp add: step_ok_def)
  with step True have "answer st' = answer st \<and> inSourcesSection st'"
    by (auto simp: rag_step_def Let_def split: if_splits)
  with q True show ?thesis by (simp add: answer_ahead_def)
next
  case False
  from rag_step_again[OF good] step False have na: "\<not> again" by (cases again) auto
  from q False have nc: "\<not> collectingCode st" by simp
  have kept: "answer_kept line \<Longrightarrow> answer_pieces (line # ls) =
      answer_content line @ ascii '' '' @ answer_pieces ls" for ls
    by (simp add: answer_pieces_Cons)
  have dropped: "\<not> answer_kept line \<Longrightarrow> answer_pieces (line # ls) = answer_pieces ls" for ls
    by (simp add: answer_pieces_Cons)
  from step False nc q na show ?thesis
    by (auto simp: rag_step_def rag_answer_def Let_def answer_ahead_def kept dropped
        answer_kept_def answer_content_def split: if_splits)
qed

lemma parseRagOutput_answer:
  "\<exists>srcs. parseRagOutput s =
     Some (Inr (trim (answer_pieces (collected False (split_lines (replace_all re_cr [] s)))),
                srcs))"
proof -
  let ?ls = "split_lines (replace_all re_cr [] s)"
  let ?A = "answer_pieces (collected False ?ls)"
  let ?Q = "\<lambda>ls st. (inSourcesSection st \<or> \<not> collectingCode st) \<and> answer_ahead ls st = ?A"
  have "\<exists>st'. rag_loop ?ls rag_init = Some (Inr st') \<and> rag_good st' \<and> ?Q [] st'"
  proof (rule rag_loop_invariant_lines[where Q = ?Q])
    show "if again then ?Q (line # rest) st' else ?Q rest st'"
      if "rag_good st" "?Q (line # rest) st" "rag_step line st = Inr (st', again)"
      for line rest st st' again
      using that by (rule rag_step_answer_ahead)
    show "rag_good rag_init" by (rule rag_init_good)
    show "?Q ?ls rag_init" by (simp add: rag_init_def answer_ahead_def)
  qed
  then obtain st' where l: "rag_loop ?ls rag_init = Some (Inr st')"
    and a: "answer_ahead [] st' = ?A" by blast
  have "answer_ahead [] st' = answer st'" by (simp add: answer_ahead_def)
  with a have "answer st' = ?A" by simp
  with l show ?thesis
    by (cases "rag_finish st'") (auto simp: parseRagOutput_def rag_finish_def)
qed

subsection \<open>A source box with a wrapped path\<close>

text \<open>The record that follows the sources \<open>S\<close>.\<close>

lemma emitted_iff: "emitted S k n srcs = (\<exists>r later. srcs = S @ r # later \<and> has_path k n r)"
proof
  assume e: "emitted S k n srcs"
  then have l: "length S < length srcs" and t: "take (length S) srcs = S"
    and h: "has_path k n (srcs ! length S)" by (simp_all add: emitted_def)
  have "srcs = S @ srcs ! length S # drop (Suc (length S)) srcs"
    by (metis id_take_nth_drop l t)
  with h show "\<exists>r later. srcs = S @ r # later \<and> has_path k n r" by blast
next
  assume "\<exists>r later. srcs = S @ r # later \<and> has_path k n r"
  then show "emitted S k n srcs" by (auto simp: emitted_def)
qed

lemma emitted_append: "emitted S k n srcs \<Longrightarrow> emitted S k n (srcs @ new)"
  by (auto simp: emitted_iff)

lemma has_path_attach: "has_path k n cur \<Longrightarrow> has_path k n (attach_code cur cl)"
  by (simp add: has_path_def attach_code_def)

text \<open>A title line opens the sources section.\<close>

lemma sources_title_step:
  assumes "sources_title line" and "rag_step line st = Inr (st', again)"
    and "\<not> inSourcesSection st"
  shows "inSourcesSection st'"
  using assms by (auto simp: rag_step_def Let_def sources_title_def ascii_def split: if_splits)

lemma sources_reached:
  assumes "rag_good st" and "list_ex sources_title ls"
  shows "\<exists>st'. rag_loop ls st = Some (Inr st') \<and> rag_good st' \<and> inSourcesSection st'"
proof -
  let ?Q = "\<lambda>ls st. inSourcesSection st \<or> list_ex sources_title ls"
  have "\<exists>st'. rag_loop ls st = Some (Inr st') \<and> rag_good st' \<and> ?Q [] st'"
  proof (rule rag_loop_invariant_lines[where Q = ?Q])
    show "if again then ?Q (line # rest) st' else ?Q rest st'"
      if "rag_good st0" "?Q (line # rest) st0" "rag_step line st0 = Inr (st', again)"
      for line rest st0 st' again
    proof (cases "inSourcesSection st0")
      case True
      from rag_step_keeps_sources[OF that(1) True that(3)] show ?thesis by simp
    next
      case False
      from rag_step_again[OF that(1)] that(3) False have na: "\<not> again" by (cases again) auto
      from that(2) False have "sources_title line \<or> list_ex sources_title rest" by simp
      with sources_title_step[OF _ that(3) False] na show ?thesis by auto
    qed
    show "rag_good st" by (rule assms)
    show "?Q ls st" using assms(2) by simp
  qed
  then show ?thesis by simp
qed

text \<open>The header of a box.\<close>

lemma step_header:
  assumes good: "rag_good st" and src: "inSourcesSection st"
    and hdr: "box_header_of header = Some (k, n)"
    and nosup: "\<not> includes_str (trim header) (ascii ''Supporting Sources'')"
  shows "\<exists>st'. rag_step header st = Inr (st', False) \<and> box_open (sources st') k n st'"
proof -
  from hdr obtain m g2 g3 where m: "rexec re_boxStart header = Some m"
    and g: "grp header m 2 = Some g2" "grp header m 3 = Some g3"
    and k: "k = toLowerCase g2" "n = trim g3"
    by (auto simp: box_header_of_def split: option.splits)
  from boxStart_head[OF m] obtain rest where header: "header = BOX_TL # rest" by blast
  have h: "trim header \<noteq> []"
    "\<not> startsWith (trim header) (ascii ''Code Search - RAG Mode Query:'')"
    "\<not> startsWith (trim header) (ascii ''Query:'')"
    unfolding header by (rule row_head; simp add: is_space_def BOX_TL_def)+
  have "rag_step header st = rag_box_start header m st"
    using h nosup src m by (simp add: rag_step_def rag_sources_def)
  then show ?thesis
    using g k src
    by (auto simp: rag_box_start_def box_open_def new_result_def Let_def split: option.splits)
qed

text \<open>
  A line without page glyph that is no header, read inside a box: it sets the similarity
  or the docstring, or is skipped, or closes the box.
\<close>

lemma step_in_box:
  assumes good: "rag_good st" and src: "inSourcesSection st" and box: "inSourceBox st"
    and ncf: "\<not> collectingFilePath st" and cur: "currentSource st = Some cur"
    and q: "quiet line"
  shows "(\<exists>cur'. rag_step line st = Inr (st\<lparr>currentSource := Some cur'\<rparr>, False)
            \<and> type cur' = type cur \<and> name cur' = name cur \<and> file_path cur' = file_path cur
            \<and> start_line cur' = start_line cur \<and> end_line cur' = end_line cur)
       \<or> rag_step line st = Inr (st\<lparr>inAnswerSection := False, inSourcesSection := True\<rparr>, False)
       \<or> rag_step line st = Inr (st, False)
       \<or> (closes_box line
           \<and> rag_step line st =
               Inr (st\<lparr>inSourceBox := False, collectingCode := True,
                      collectingFilePath := False\<rparr>, False))"
proof -
  from good box have nc: "\<not> collectingCode st" by (auto simp: rag_good_def rag_inv_def)
  from q have np: "\<not> includes_str line PAGE" and nb: "rexec re_boxStart line = None"
    by (simp_all add: quiet_def)
  show ?thesis
  proof (cases "trim line = []
      \<or> startsWith (trim line) (ascii ''Code Search - RAG Mode Query:'')
      \<or> startsWith (trim line) (ascii ''Query:'')")
    case True
    with nc src have "rag_step line st = Inr (st, False)"
      by (auto simp: rag_step_def Let_def)
    then show ?thesis by simp
  next
    case False
    note early = False
    show ?thesis
    proof (cases "includes_str (trim line) (ascii ''Supporting Sources'')")
      case True
      with early src
      have "rag_step line st = Inr (st\<lparr>inAnswerSection := False, inSourcesSection := True\<rparr>, False)"
        by (simp add: rag_step_def Let_def)
      then show ?thesis by simp
    next
      case False
      with early src nb box have step: "rag_step line st = rag_box line (trim line) st"
        by (simp add: rag_step_def rag_sources_def Let_def)
      show ?thesis
      proof (cases "rexec re_ragSim line")
        case (Some sm)
        from ragSim_capture[OF Some] obtain x t where "grp line sm 1 = Some (x # t)" by blast
        with step np ncf Some cur
        have "rag_step line st =
            Inr (st\<lparr>currentSource := Some (cur\<lparr>similarity := Some (parseFloat (x # t))\<rparr>)\<rparr>, False)"
          by (simp add: rag_box_def)
        then show ?thesis by auto
      next
        case None
        note nosim = None
        show ?thesis
        proof (cases "rexec re_ragDoc line")
          case (Some dm)
          from ragDoc_groups[OF Some] obtain g1 where "grp line dm 1 = Some g1" by blast
          with step np ncf nosim Some cur
          have "rag_step line st =
              Inr (st\<lparr>currentSource := Some (cur\<lparr>docstring := Some (trim g1)\<rparr>)\<rparr>, False)"
            by (simp add: rag_box_def)
          then show ?thesis by auto
        next
          case None
          show ?thesis
          proof (cases "rtest re_boxEnd line")
            case True
            with np False nosim None have "closes_box line" by (simp add: closes_box_def)
            moreover from step np ncf nosim None True cur
            have "rag_step line st =
                Inr (st\<lparr>inSourceBox := False, collectingCode := True,
                       collectingFilePath := False\<rparr>, False)"
              by (simp add: rag_box_def)
            ultimately show ?thesis by simp
          next
            case False
            with step np ncf nosim None cur box
            have "rag_step line st = Inr (st, False)"
              by (simp add: rag_box_def rag_code_def)
            then show ?thesis by simp
          qed
        qed
      qed
    qed
  qed
qed

text \<open>The line that closes the box.\<close>

lemma step_closes:
  assumes good: "rag_good st" and src: "inSourcesSection st" and box: "inSourceBox st"
    and ncf: "\<not> collectingFilePath st" and cur: "currentSource st = Some cur"
    and cl: "closes_box line"
  shows "rag_step line st =
           Inr (st\<lparr>inSourceBox := False, collectingCode := True, collectingFilePath := False\<rparr>,
                False)"
proof -
  from cl have c: "\<not> includes_str line PAGE"
    "\<not> includes_str (trim line) (ascii ''Supporting Sources'')"
    "rexec re_ragSim line = None" "rexec re_ragDoc line = None" "rtest re_boxEnd line"
    by (simp_all add: closes_box_def)
  from boxEnd_head[OF c(5)] obtain rest where line: "line = BOX_BL # rest" by blast
  have h: "trim line \<noteq> []"
    "\<not> startsWith (trim line) (ascii ''Code Search - RAG Mode Query:'')"
    "\<not> startsWith (trim line) (ascii ''Query:'')"
    unfolding line by (rule row_head; simp add: is_space_def BOX_BL_def)+
  have nb: "rexec re_boxStart line = None"
    by (simp add: line re_boxStart_def rexec_Bol glyph_defs)
  from h c nb src box ncf cur show ?thesis
    by (simp add: rag_step_def rag_sources_def rag_box_def Let_def)
qed

text \<open>The rows between the header and the path rows.\<close>

lemma loop_mid:
  assumes "rag_good st" and "box_open S k n st"
    and "list_all (\<lambda>l. quiet l \<and> \<not> closes_box l) mid"
  shows "\<exists>st'. rag_loop mid st = Some (Inr st') \<and> rag_good st' \<and> box_open S k n st'"
proof -
  let ?Q = "\<lambda>ls st. box_open S k n st \<and> list_all (\<lambda>l. quiet l \<and> \<not> closes_box l) ls"
  have "\<exists>st'. rag_loop mid st = Some (Inr st') \<and> rag_good st' \<and> ?Q [] st'"
  proof (rule rag_loop_invariant_lines[where Q = ?Q])
    show "if again then ?Q (line # rest) st' else ?Q rest st'"
      if "rag_good st0" "?Q (line # rest) st0" "rag_step line st0 = Inr (st', again)"
      for line rest st0 st' again
    proof -
      from that(2) have bo: "box_open S k n st0" and q: "quiet line" and nc: "\<not> closes_box line"
        and r: "list_all (\<lambda>l. quiet l \<and> \<not> closes_box l) rest" by simp_all
      from bo obtain cur where cur: "currentSource st0 = Some cur"
        and kn: "type cur = k" "name cur = n"
        by (auto simp: box_open_def split: option.splits)
      from bo have f: "inSourcesSection st0" "inSourceBox st0" "\<not> collectingFilePath st0"
        by (simp_all add: box_open_def)
      from step_in_box[OF that(1) f cur q] nc that(3) bo cur kn r show ?thesis
        by (auto simp: box_open_def)
    qed
    show "rag_good st" by (rule assms)
    show "?Q mid st" using assms(2,3) by simp
  qed
  then show ?thesis by simp
qed

text \<open>The two path rows.\<close>

lemma path_text_set:
  "set path_text = {102, 111, 47, 98, 97, 114, 46, 112, 121, 58, 49, 48, 45, 50}"
  by (auto simp: path_text_def ascii_def)

lemma fragment_facts:
  assumes "set frag \<subseteq> set path_text"
  shows "list_all plain frag" "83 \<notin> set frag" "0xD83D \<notin> set frag"
    "\<forall>c\<in>set frag. c \<notin> set [BOX_H, BOX_TL, BOX_TR, BOX_BL, BOX_BR]"
proof -
  have p: "plain c \<and> c \<noteq> 83 \<and> c \<noteq> 0xD83D
      \<and> c \<notin> set [BOX_H, BOX_TL, BOX_TR, BOX_BL, BOX_BR]" if "c \<in> set path_text" for c
    using that unfolding path_text_set
    by (auto simp: plain_def is_space_def glyph_defs)
  from assms p show "list_all plain frag" by (auto simp: list_all_iff)
  from assms p show "83 \<notin> set frag" by blast
  from assms p show "0xD83D \<notin> set frag" by blast
  from assms p show "\<forall>c\<in>set frag. c \<notin> set [BOX_H, BOX_TL, BOX_TR, BOX_BL, BOX_BR]" by blast
qed

lemma step_row1:
  assumes good: "rag_good st" and bo: "box_open S k n st"
    and sp: "list_all is_space sp1" "list_all is_space sp2" "list_all is_space sp3"
    and ne: "frag \<noteq> []" and fr: "set frag \<subseteq> set path_text"
  shows "rag_step (BOX_V # sp1 @ PAGE @ sp2 @ frag @ sp3 @ [BOX_V]) st =
           Inr (st\<lparr>collectingFilePath := True, filePathLines := [frag]\<rparr>, False)"
proof -
  let ?row = "BOX_V # sp1 @ PAGE @ sp2 @ frag @ sp3 @ [BOX_V]"
  note ff = fragment_facts[OF fr]
  have h: "trim ?row \<noteq> []"
    "\<not> startsWith (trim ?row) (ascii ''Code Search - RAG Mode Query:'')"
    "\<not> startsWith (trim ?row) (ascii ''Query:'')"
    by (rule row_head; simp add: is_space_def BOX_V_def)+
  have "83 \<notin> set ?row"
    using spaces_no_S[OF sp(1)] spaces_no_S[OF sp(2)] spaces_no_S[OF sp(3)] ff(2)
    by (simp add: glyph_defs)
  from no_title[OF this] have nosup: "\<not> includes_str (trim ?row) (ascii ''Supporting Sources'')" .
  have nb: "rexec re_boxStart ?row = None"
    by (simp add: re_boxStart_def rexec_Bol glyph_defs)
  have pg: "includes_str ?row PAGE"
    using includes_append_left[OF includes_self[of PAGE "sp2 @ frag @ sp3 @ [BOX_V]"],
        of "BOX_V # sp1"] by simp
  from pathMarker_row[OF ne ff(1) sp] obtain m where
    m: "rexec re_pathMarker ?row = Some m" and g: "grp ?row m 1 = Some frag" by blast
  from bo have st: "inSourcesSection st" "inSourceBox st" "\<not> collectingFilePath st"
    "filePathLines st = []" by (simp_all add: box_open_def)
  from h nosup nb pg m g st trim_plain[OF ne ff(1)] ne show ?thesis
    by (simp add: rag_step_def rag_sources_def rag_box_def Let_def)
qed

lemma complete_path:
  "\<exists>m. rexec re_complete path_text = Some m
     \<and> grp path_text m 1 = Some (ascii ''foo/bar.py'')
     \<and> grp path_text m 2 = Some (ascii ''10'') \<and> grp path_text m 3 = Some (ascii ''20'')"
  by (simp add: path_text_def re_complete_def str_defs cls_defs)

lemma path_values:
  "trim (ascii ''foo/bar.py'') = ascii ''foo/bar.py''"
  "parseInt (ascii ''10'') = Num 10" "parseInt (ascii ''20'') = Num 20"
  by (simp_all add: str_defs cls_defs num_defs)

lemma step_row2:
  assumes good: "rag_good st" and src: "inSourcesSection st" and box: "inSourceBox st"
    and cf: "collectingFilePath st" and fpl: "filePathLines st = [frag1]"
    and cur: "currentSource st = Some cur"
    and sp: "list_all is_space sp4" "list_all is_space sp5"
    and ne: "frag2 \<noteq> []" and whole: "frag1 @ frag2 = path_text"
  shows "rag_step (BOX_V # sp4 @ frag2 @ sp5 @ [BOX_V]) st =
           Inr (st\<lparr>currentSource := Some (cur
                    \<lparr>file_path := Some (ascii ''foo/bar.py''), start_line := Some (Num 10),
                     end_line := Some (Num 20)\<rparr>),
                  collectingFilePath := False, filePathLines := []\<rparr>, False)"
proof -
  let ?row = "BOX_V # sp4 @ frag2 @ sp5 @ [BOX_V]"
  from whole have fr: "set frag2 \<subseteq> set path_text" by (metis Un_upper2 set_append)
  note ff = fragment_facts[OF fr]
  have h: "trim ?row \<noteq> []"
    "\<not> startsWith (trim ?row) (ascii ''Code Search - RAG Mode Query:'')"
    "\<not> startsWith (trim ?row) (ascii ''Query:'')"
    by (rule row_head; simp add: is_space_def BOX_V_def)+
  have "83 \<notin> set ?row"
    using spaces_no_S[OF sp(1)] spaces_no_S[OF sp(2)] ff(2)
    by (simp add: glyph_defs)
  from no_title[OF this] have nosup: "\<not> includes_str (trim ?row) (ascii ''Supporting Sources'')" .
  have nb: "rexec re_boxStart ?row = None"
    by (simp add: re_boxStart_def rexec_Bol glyph_defs)
  from pathLine_row[OF ne ff(1) sp] obtain m where
    m: "rexec re_pathLine ?row = Some m" and g: "grp ?row m 1 = Some frag2" by blast
  from ne obtain x xs where f2: "frag2 = x # xs" by (cases frag2) auto
  with ff(4) have "\<not> cls_mem (OneOf [BOX_H, BOX_TL, BOX_TR, BOX_BL, BOX_BR]) x" by simp
  then have nbd: "\<not> rtest re_border frag2"
    by (simp add: f2 re_border_def rtest_Bol del: cls_mem.simps)
  have nch: "\<not> includes_str frag2 CHART" "\<not> includes_str frag2 MEMO"
    using includes_set[of frag2 CHART] includes_set[of frag2 MEMO] ff(3)
    by (auto simp: CHART_def MEMO_def)
  from complete_path obtain cm where cm: "rexec re_complete path_text = Some cm"
    and cg: "grp path_text cm 1 = Some (ascii ''foo/bar.py'')"
      "grp path_text cm 2 = Some (ascii ''10'')" "grp path_text cm 3 = Some (ascii ''20'')"
    by blast
  from h nosup nb m g src box cf fpl cur nbd nch ne trim_plain[OF ne ff(1)] whole cm cg
  show ?thesis
    by (simp add: rag_step_def rag_sources_def rag_box_def Let_def path_values)
qed

text \<open>After the path rows: the rest of the box, the code, the next boxes.\<close>

lemma step_closed:
  assumes good: "rag_good st" and bc: "box_closed S k n st"
    and step: "rag_step line st = Inr (st', again)"
  shows "box_closed S k n st' \<or> emitted S k n (sources st')"
proof -
  from bc obtain cur where cur: "currentSource st = Some cur" and hp: "has_path k n cur"
    by (auto simp: box_closed_def split: option.splits)
  from bc have f: "inSourcesSection st" "\<not> inSourceBox st" "collectingCode st" "sources st = S"
    by (simp_all add: box_closed_def)
  have em: "emitted S k n (S @ [attach_code cur (codeLines st)])"
    using has_path_attach[OF hp] by (auto simp: emitted_iff)
  show ?thesis
  proof (cases "rexec re_boxStart line")
    case (Some m)
    from boxStart_groups[OF Some] obtain g2 g3 where
      "grp line m 2 = Some g2" "grp line m 3 = Some g3" by blast
    with step Some f cur em bc show ?thesis
      by (auto simp: rag_step_def rag_sources_def rag_box_start_def Let_def box_closed_def
          split: if_splits)
  next
    case None
    with step f cur em bc show ?thesis
      by (auto simp: rag_step_def rag_sources_def rag_code_def Let_def box_closed_def
          split: if_splits)
  qed
qed

lemma loop_rest:
  assumes "rag_good st" and "path_read S k n st"
    and "list_all quiet (takeWhile (\<lambda>l. \<not> closes_box l) rest)"
  shows "\<exists>st'. rag_loop rest st = Some (Inr st') \<and> rag_good st'
           \<and> (path_read S k n st' \<or> box_closed S k n st' \<or> emitted S k n (sources st'))"
proof -
  let ?Q = "\<lambda>ls st.
      (path_read S k n st \<and> list_all quiet (takeWhile (\<lambda>l. \<not> closes_box l) ls))
      \<or> box_closed S k n st \<or> emitted S k n (sources st)"
  have "\<exists>st'. rag_loop rest st = Some (Inr st') \<and> rag_good st' \<and> ?Q [] st'"
  proof (rule rag_loop_invariant_lines[where Q = ?Q])
    show "if again then ?Q (line # ls) st' else ?Q ls st'"
      if good: "rag_good st0" and q: "?Q (line # ls) st0"
        and step: "rag_step line st0 = Inr (st', again)"
      for line ls st0 st' again
    proof -
      from q consider
        (box) "path_read S k n st0" "list_all quiet (takeWhile (\<lambda>l. \<not> closes_box l) (line # ls))"
        | (closed) "box_closed S k n st0" | (out) "emitted S k n (sources st0)" by blast
      then show ?thesis
      proof cases
        case box
        from box(1) obtain cur where cur: "currentSource st0 = Some cur"
          and hp: "has_path k n cur"
          by (auto simp: path_read_def split: option.splits)
        from box(1) have f: "inSourcesSection st0" "inSourceBox st0" "\<not> collectingFilePath st0"
          by (simp_all add: path_read_def)
        show ?thesis
        proof (cases "closes_box line")
          case True
          from step_closes[OF good f cur True] step box(1) cur hp show ?thesis
            by (auto simp: path_read_def box_closed_def)
        next
          case False
          with box(2) have ql: "quiet line"
            and rest: "list_all quiet (takeWhile (\<lambda>l. \<not> closes_box l) ls)" by simp_all
          from step_in_box[OF good f cur ql] step box(1) cur hp rest False show ?thesis
            by (auto simp: path_read_def has_path_def)
        qed
      next
        case closed
        from step_closed[OF good closed step] show ?thesis by auto
      next
        case out
        from rag_step_sources_grow[OF good step] obtain new where
          "sources st' = sources st0 @ new" by blast
        with emitted_append[OF out] show ?thesis by auto
      qed
    qed
    show "rag_good st" by (rule assms)
    show "?Q rest st" using assms(2,3) by simp
  qed
  then show ?thesis by simp
qed

text \<open>The end of the text.\<close>

lemma finish_emitted:
  assumes "path_read S k n st \<or> box_closed S k n st \<or> emitted S k n (sources st)"
  shows "emitted S k n (snd (rag_finish st))"
proof -
  have cur: "emitted S k n (snd (rag_finish st))"
    if "sources st = S" "currentSource st = Some cur" "has_path k n cur" for cur
  proof -
    from that(3) have "file_path cur = Some (ascii ''foo/bar.py'')" by (simp add: has_path_def)
    with that(1,2) have "snd (rag_finish st) = S @ [attach_code cur (codeLines st)]"
      by (simp add: rag_finish_def ascii_def)
    with has_path_attach[OF that(3)] show ?thesis by (auto simp: emitted_iff)
  qed
  from assms consider "path_read S k n st" | "box_closed S k n st"
    | "emitted S k n (sources st)" by blast
  then show ?thesis
  proof cases
    case 1
    then show ?thesis using cur by (auto simp: path_read_def split: option.splits)
  next
    case 2
    then show ?thesis using cur by (auto simp: box_closed_def split: option.splits)
  next
    case 3
    have "\<exists>new. snd (rag_finish st) = sources st @ new"
      by (auto simp: rag_finish_def split: option.splits)
    with emitted_append[OF 3] show ?thesis by auto
  qed
qed

section \<open>Properties of the PR-summary parser\<close>

text \<open>A turn in the pipeline section.\<close>

lemma add_pipeline_section [simp]: "currentSection (add_pipeline t st) = currentSection st"
  by (simp add: add_pipeline_def)

lemma add_pipeline_Nil [simp]: "add_pipeline [] st = st"
  by (simp add: add_pipeline_def)

lemma add_pipeline_twice [simp]: "add_pipeline u (add_pipeline t st) = add_pipeline (t @ u) st"
  by (simp add: add_pipeline_def)

lemma pipeline_grown_add:
  "currentSection st = Pipeline \<Longrightarrow> pipeline_grown st (add_pipeline t st) t"
  by (simp add: pipeline_grown_def add_pipeline_def)

lemma pipeline_grown_trans:
  "pipeline_grown st st1 t \<Longrightarrow> pipeline_grown st1 st2 u \<Longrightarrow> pipeline_grown st st2 (t @ u)"
  by (simp add: pipeline_grown_def)

text \<open>
  A line that opens another section starts with a corner or with the memo glyph, so none
  of the tests before takes it.
\<close>

lemma section_opener_head:
  assumes "rtest re_fileTop t \<or> startsWith t (MEMO @ ascii '' Overall PR Summary:'')"
  shows "\<exists>c rest. t = c # rest \<and> (c = BOX_TL \<or> c = 0xD83D)"
proof -
  from assms consider "rtest re_fileTop t"
    | "startsWith t (MEMO @ ascii '' Overall PR Summary:'')" by blast
  then show ?thesis
  proof cases
    case 1
    then show ?thesis
      by (auto simp: re_fileTop_def rtest_Bol split: option.splits dest: strip_prefix_consumes)
  next
    case 2
    then show ?thesis by (auto simp: MEMO_def startsWith_Cons)
  qed
qed

lemma section_opener_not_passed_over:
  assumes "rtest re_fileTop t \<or> startsWith t (MEMO @ ascii '' Overall PR Summary:'')"
  shows "\<not> passed_over t"
proof -
  from section_opener_head[OF assms] obtain c rest where
    t: "t = c # rest" and c: "c = BOX_TL \<or> c = 0xD83D" by blast
  from c show ?thesis
    by (auto simp: t passed_over_def blank_or_separator_def meta_line_def rtest_Bol
        startsWith_def ascii_def re_sep_def re_commit_def glyph_defs)
qed

lemma ends_not_passed_over: "ends_pipeline t \<Longrightarrow> \<not> passed_over t"
  by (simp add: ends_pipeline_def)

lemma pr_step_passed_over:
  assumes "currentSection st = Pipeline" and "passed_over (trim line)"
  shows "\<exists>st'. pr_step line st = Inr st' \<and> pipeline_grown st st' []"
  using assms
  by (auto simp: pr_step_def Let_def passed_over_def blank_or_separator_def meta_line_def
      pipeline_grown_def)

lemma pr_step_appended:
  assumes "currentSection st = Pipeline" and "\<not> passed_over (trim line)"
    and "\<not> ends_pipeline (trim line)"
  shows "pr_step line st = Inr (add_pipeline (trim line @ [10]) st)"
proof -
  have "st\<lparr>currentSection := Pipeline,
           result := (result st)\<lparr>pipelineInfo := pipelineInfo (result st) @ trim line @ [10]\<rparr>\<rparr>
        = add_pipeline (trim line @ [10]) st"
    using assms(1) by (simp add: add_pipeline_def)
  with assms show ?thesis
    by (simp add: pr_step_def Let_def passed_over_def blank_or_separator_def meta_line_def
        ends_pipeline_def add_pipeline_def)
qed

lemma pr_step_ends:
  assumes sec: "currentSection st = Pipeline" and ends: "ends_pipeline (trim line)"
  shows "\<exists>st'. pr_step line st = Inr st'
           \<and> currentSection st' =
               (if rtest re_fileTop (trim line) then FileChange else OverallSummary)
           \<and> pipelineInfo (result st') = pipelineInfo (result st)"
proof -
  from ends_not_passed_over[OF ends]
  have np: "trim line \<noteq> []" "\<not> rtest re_sep (trim line)"
    "\<not> startsWith (trim line) (ascii ''Branch:'')"
    "\<not> startsWith (trim line) (ascii ''Commits:'')"
    "\<not> startsWith (trim line) (ascii ''Changed files:'')"
    "\<not> rtest re_commit (trim line)"
    by (simp_all add: passed_over_def blank_or_separator_def meta_line_def)
  have pfc: "pipelineInfo (push_file_change st) = pipelineInfo (result st)"
    by (simp add: push_file_change_def split: option.splits)
  show ?thesis
  proof (cases "rtest re_fileTop (trim line)")
    case True
    show ?thesis
    proof (cases "rexec re_fileName (trim line)")
      case None
      with True np pfc show ?thesis by (simp add: pr_step_def Let_def)
    next
      case (Some fm)
      from fileName_groups[OF Some] obtain g1 where "grp (trim line) fm 1 = Some g1" by blast
      with Some True np pfc show ?thesis by (simp add: pr_step_def Let_def)
    qed
  next
    case False
    with ends have "startsWith (trim line) (MEMO @ ascii '' Overall PR Summary:'')"
      by (simp add: ends_pipeline_def)
    with False np sec show ?thesis by (simp add: pr_step_def Let_def)
  qed
qed

text \<open>A line with a pipeline tag that no branch before takes opens the pipeline section.\<close>

lemma pr_step_enters:
  assumes "\<not> taken_before_pipeline st line" and "pipeline_tag (trim line)"
  shows "pr_step line st =
           Inr (add_pipeline (trim line @ [10]) (st\<lparr>currentSection := Pipeline\<rparr>))"
  using assms
  by (auto simp: pr_step_def Let_def taken_before_pipeline_def pipeline_tag_def passed_over_def
      blank_or_separator_def meta_line_def add_pipeline_def)

text \<open>A line that starts with the warning glyph is appended like any other text.\<close>

lemma warning_not_special:
  assumes "startsWith t WARNING"
  shows "\<not> passed_over t \<and> \<not> ends_pipeline t"
proof -
  from assms obtain rest where t: "t = 0x26A0 # 0xFE0F # rest"
    by (auto simp: WARNING_def startsWith_Cons)
  show ?thesis
    by (simp add: t passed_over_def blank_or_separator_def meta_line_def ends_pipeline_def
        rtest_Bol startsWith_def ascii_def re_sep_def re_commit_def re_fileTop_def glyph_defs)
qed

text \<open>The loop over lines none of which opens another section.\<close>

lemma pr_loop_pipeline:
  assumes "currentSection st = Pipeline"
    and "list_all (\<lambda>l. \<not> ends_pipeline (trim l)) ls"
  shows "\<exists>st'. pr_loop ls st = Inr st'
           \<and> pipeline_grown st st'
               (concat (map (\<lambda>l. trim l @ [10]) (filter (\<lambda>l. \<not> passed_over (trim l)) ls)))"
  using assms
proof (induction ls arbitrary: st)
  case Nil
  then show ?case by (simp add: pipeline_grown_def)
next
  case (Cons line ls)
  from Cons.prems have ne: "\<not> ends_pipeline (trim line)"
    and rest: "list_all (\<lambda>l. \<not> ends_pipeline (trim l)) ls" by simp_all
  let ?tail = "concat (map (\<lambda>l. trim l @ [10]) (filter (\<lambda>l. \<not> passed_over (trim l)) ls))"
  show ?case
  proof (cases "passed_over (trim line)")
    case True
    from pr_step_passed_over[OF Cons.prems(1) True] obtain st1 where
      s1: "pr_step line st = Inr st1" and g1: "pipeline_grown st st1 []" by blast
    from g1 have sec1: "currentSection st1 = Pipeline" by (simp add: pipeline_grown_def)
    from Cons.IH[OF sec1 rest] obtain st' where
      l: "pr_loop ls st1 = Inr st'" and g: "pipeline_grown st1 st' ?tail" by blast
    from pipeline_grown_trans[OF g1 g] s1 l True show ?thesis by simp
  next
    case False
    let ?st1 = "add_pipeline (trim line @ [10]) st"
    from pr_step_appended[OF Cons.prems(1) False ne]
    have s1: "pr_step line st = Inr ?st1" .
    have sec1: "currentSection ?st1 = Pipeline" using Cons.prems(1) by simp
    from Cons.IH[OF sec1 rest] obtain st' where
      l: "pr_loop ls ?st1 = Inr st'" and g: "pipeline_grown ?st1 st' ?tail" by blast
    from pipeline_grown_trans[OF pipeline_grown_add[OF Cons.prems(1)] g] s1 l False
    show ?thesis by simp
  qed
qed

section \<open>The claims\<close>

text \<open>
  The end-to-end example of the search parser. The similarity is the double nearest to
  0.8421.
\<close>

lemma connect_db_parsed:
  "parseSearchOutput connect_db_panel =
     Inr [\<lparr>type = ascii ''function'', name = ascii ''connect_db'',
           file_path = Some (ascii ''db/conn.py''), start_line = Some (Num 10),
           end_line = Some (Num 20), similarity = Some (to_double 8421 10000),
           docstring = Some (ascii ''Opens a pooled database connection.''),
           code_snippet = None\<rparr>]"
  by (simp add: connect_db_panel_def render_defs glyph_defs cls_defs str_defs num_defs
      search_defs)

text \<open>
  C1. \<open>parseSearchOutput\<close> returns one record for every line that matches the header
  pattern, in the order of those lines, each with the kind and the name of its header;
  a text with no header line gives the empty sequence.
\<close>

theorem parseSearchOutput_headers:
  "\<exists>rs. parseSearchOutput output = Inr rs
     \<and> length rs = length (filter (rtest re_header) (split_lines (replace_all re_cr [] output)))
     \<and> map kind_name rs =
         map header_of (filter (rtest re_header) (split_lines (replace_all re_cr [] output)))"
proof -
  let ?ls = "split_lines (replace_all re_cr [] output)"
  let ?st0 = "\<lparr>results = [], currentResult = None\<rparr>"
  from search_loop_headers[of ?ls ?st0] obtain st' where
    l: "search_loop ?ls ?st0 = Inr st'" and
    k: "map kind_name (push_current st') = map header_of (filter (rtest re_header) ?ls)"
    by (auto simp: push_current_def)
  from k have "length (push_current st') = length (filter (rtest re_header) ?ls)"
    by (metis length_map)
  with l k show ?thesis by (simp add: parseSearchOutput_def)
qed

theorem parseSearchOutput_headers_witness:
  "\<exists>rs. parseSearchOutput two_results = Inr rs \<and> length rs = 2
     \<and> map kind_name rs =
         [Some (ascii ''function'', ascii ''connect_db''), Some (ascii ''class'', ascii ''Pool'')]"
  using parseSearchOutput_headers [of two_results]
  by (simp add: two_results_def render_defs glyph_defs cls_defs str_defs re_cr_def
      re_header_def header_of_def) (simp add: numeral_2_eq_2)

text \<open>
  C2. On every text each of the three parsers returns: no exception is raised, the
  loop of \<open>parseRagOutput\<close> ends, and the result is a value.
\<close>

theorem parsers_total:
  "(\<exists>rs. parseSearchOutput s = Inr rs)
   \<and> (\<exists>ans srcs. parseRagOutput s = Some (Inr (ans, srcs)))
   \<and> (\<exists>r. parsePRSummary s = Inr r)"
  using parseSearchOutput_sound[of s] parseRagOutput_sound[of s] parsePRSummary_total[of s]
  by blast

theorem parsers_total_witness:
  "(\<exists>rs. parseSearchOutput connect_db_panel = Inr rs)
   \<and> (\<exists>ans srcs. parseRagOutput connect_db_panel = Some (Inr (ans, srcs)))
   \<and> (\<exists>r. parsePRSummary connect_db_panel = Inr r)"
  using parsers_total [of connect_db_panel] .

text \<open>
  C3. A source without a file path does reach the output: a box that was closed and is
  followed by the top border of another box is pushed as it is. Only the push after the
  loop asks for a file path.
\<close>

theorem source_without_path_emitted:
  "parseRagOutput two_boxes = Some (Inr ([], [new_result (ascii ''function'') (ascii ''a'')]))
   \<and> file_path (new_result (ascii ''function'') (ascii ''a'')) = None"
  by (simp add: two_boxes_def render_defs glyph_defs cls_defs str_defs num_defs rag_defs
      rag_loop_Nil rag_loop_Cons)

text \<open>
  C4. The claim that the answer holds no border character fails: a vertical border
  inside a line is kept.
\<close>

theorem answer_keeps_inner_border:
  "parseRagOutput answer_with_bar = Some (Inr (ascii ''a '' @ [BOX_V] @ ascii '' b'', []))"
  by (simp add: answer_with_bar_def render_defs glyph_defs cls_defs str_defs num_defs rag_defs
      rag_loop_Nil rag_loop_Cons)

text \<open>
  C4, as amended. The answer that \<open>parseRagOutput\<close> returns never holds the text
  \<open>Answer:\<close>. Border characters are removed in part only.

  The lines collected for the answer are those read while the answer section is open:
  the lines after a line with an answer marker (the bulb glyph or \<open>Answer:\<close>) and before
  the first line that holds the words \<open>Supporting Sources\<close> and is neither a marker line
  nor a query echo, without the blank lines, the marker lines and the query echoes, and
  up to and including a line that starts with a bottom border (a later marker opens the
  section again).

  Of each collected line one vertical border at the start, with the white space after
  it, and one at the end, with the white space before it, are removed and the rest is
  trimmed. The rest is skipped when it is empty, when it is made of horizontal borders
  and corners only (the vertical border is not among them), or when it is the text
  \<open>Answer:\<close>. The other rests, each followed by a space, are joined, and the whole,
  trimmed, is the answer.

  So the answer holds no border character exactly when the rest of every collected line
  holds none or is made of horizontal borders and corners only; every other border
  character of a collected line stays in the answer.
\<close>

theorem answer_text_clean:
  "\<exists>ans srcs. parseRagOutput s = Some (Inr (ans, srcs))
     \<and> ans = trim (answer_pieces (collected False (split_lines (replace_all re_cr [] s))))
     \<and> \<not> includes_str ans (ascii ''Answer:'')
     \<and> border_free ans =
         list_all (\<lambda>l. border_free (answer_content l) \<or> rtest re_border (answer_content l))
           (collected False (split_lines (replace_all re_cr [] s)))"
proof -
  from parseRagOutput_answer[of s] obtain srcs where
    p: "parseRagOutput s =
       Some (Inr (trim (answer_pieces (collected False (split_lines (replace_all re_cr [] s)))),
                  srcs))" by blast
  from parseRagOutput_no_marker[of s] p
  have "\<not> includes_str
      (trim (answer_pieces (collected False (split_lines (replace_all re_cr [] s)))))
      (ascii ''Answer:'')" by auto
  with p show ?thesis
    by (simp add: border_free_trim_iff answer_pieces_border_free)
qed

theorem answer_text_clean_witness:
  "collected False (split_lines (replace_all re_cr [] answer_and_sources)) =
     [panel_row (ascii ''Use connect_db.''), panel_bottom]
   \<and> (\<exists>srcs. parseRagOutput answer_and_sources = Some (Inr (ascii ''Use connect_db.'', srcs)))
   \<and> border_free (ascii ''Use connect_db.'')"
proof -
  have c: "collected False (split_lines (replace_all re_cr [] answer_and_sources)) =
      [panel_row (ascii ''Use connect_db.''), panel_bottom]"
    by (simp add: answer_and_sources_def render_defs glyph_defs cls_defs str_defs re_cr_def
        re_boxEnd_def)
  have a: "trim (answer_pieces [panel_row (ascii ''Use connect_db.''), panel_bottom]) =
      ascii ''Use connect_db.''"
    by (simp add: answer_pieces_def answer_kept_def answer_content_def render_defs glyph_defs
        cls_defs str_defs re_lead_def re_tail_def re_border_def)
  have b: "border_free (ascii ''Use connect_db.'')"
    by (simp add: border_free_def is_border_def ascii_def glyph_defs)
  from answer_text_clean [of answer_and_sources] c a b show ?thesis by auto
qed

text \<open>
  C5. The claim that the pipeline section runs to the end of the text fails: the
  overall-summary marker ends it, and neither the marker line nor the line after it
  reaches \<open>pipelineInfo\<close>.
\<close>

theorem pipeline_ended_by_summary:
  "parsePRSummary pipeline_then_summary =
     Inr \<lparr>meta = \<lparr>branch = [], commits = Num 0, changedFiles = Num 0\<rparr>,
          commitHistory = [], fileChanges = [], overallSummary = ascii ''late text'',
          pipelineInfo = ascii ''[1/2] x'', warnings = []\<rparr>"
  by (simp add: pipeline_then_summary_def render_defs glyph_defs cls_defs str_defs num_defs
      pr_defs)

text \<open>
  C5, as amended. A line whose trimmed text holds the pipeline marker or starts with a
  progress tag opens the pipeline section and is appended to \<open>pipelineInfo\<close>, unless a
  branch before the pipeline branches takes it: a blank or separator line, a metadata
  line, a commit bullet, the top border of a file-change box, a line that starts with a
  vertical border or a bottom corner read in the file-change section, the
  overall-summary marker, and, in the overall-summary section, every line that is not
  made of border characters only.

  While the section is the pipeline section, a line is handled by its trimmed text. A
  blank line, a line of \<open>=\<close> signs, a line that starts with \<open>Branch:\<close>, \<open>Commits:\<close> or
  \<open>Changed files:\<close>, and a commit bullet are not appended to \<open>pipelineInfo\<close> and leave
  the section as it is. The top border of a file-change box and a line that starts with
  the overall-summary marker are not appended and end the pipeline section: the section
  becomes the file-change section, respectively the overall-summary section. Every
  other line is appended to \<open>pipelineInfo\<close>, trimmed and followed by a line feed; a line
  that starts with the warning glyph is appended in this way and does not reach
  \<open>warnings\<close>. So over any lines none of which ends the section, \<open>pipelineInfo\<close> grows
  by the trimmed lines that are not blank, separator, metadata or commit lines, in
  their order, and the summary, the warnings and the file changes stay as they are.
\<close>

theorem pipeline_accumulates:
  "(\<not> taken_before_pipeline st0 line0 \<and> pipeline_tag (trim line0) \<longrightarrow>
      pr_step line0 st0 =
        Inr (add_pipeline (trim line0 @ [10]) (st0\<lparr>currentSection := Pipeline\<rparr>)))
   \<and> (currentSection st = Pipeline \<longrightarrow>
        (list_all (\<lambda>l. \<not> ends_pipeline (trim l)) ls \<longrightarrow>
           (\<exists>st'. pr_loop ls st = Inr st'
              \<and> pipeline_grown st st'
                  (concat (map (\<lambda>l. trim l @ [10])
                     (filter (\<lambda>l. \<not> passed_over (trim l)) ls)))))
        \<and> (ends_pipeline (trim line) \<longrightarrow>
             (\<exists>st'. pr_step line st = Inr st'
                \<and> currentSection st' =
                    (if rtest re_fileTop (trim line) then FileChange else OverallSummary)
                \<and> pipelineInfo (result st') = pipelineInfo (result st)))
        \<and> (startsWith (trim line) WARNING \<longrightarrow>
             pr_step line st = Inr (add_pipeline (trim line @ [10]) st)))"
proof (intro conjI impI)
  assume "\<not> taken_before_pipeline st0 line0 \<and> pipeline_tag (trim line0)"
  then show "pr_step line0 st0 =
      Inr (add_pipeline (trim line0 @ [10]) (st0\<lparr>currentSection := Pipeline\<rparr>))"
    using pr_step_enters by blast
next
  assume "currentSection st = Pipeline"
    and "list_all (\<lambda>l. \<not> ends_pipeline (trim l)) ls"
  then show "\<exists>st'. pr_loop ls st = Inr st'
           \<and> pipeline_grown st st'
               (concat (map (\<lambda>l. trim l @ [10])
                  (filter (\<lambda>l. \<not> passed_over (trim l)) ls)))"
    by (rule pr_loop_pipeline)
next
  assume "currentSection st = Pipeline" and "ends_pipeline (trim line)"
  then show "\<exists>st'. pr_step line st = Inr st'
             \<and> currentSection st' =
                 (if rtest re_fileTop (trim line) then FileChange else OverallSummary)
             \<and> pipelineInfo (result st') = pipelineInfo (result st)"
    by (rule pr_step_ends)
next
  assume sec: "currentSection st = Pipeline" and "startsWith (trim line) WARNING"
  from warning_not_special[OF this(2)] pr_step_appended[OF sec]
  show "pr_step line st = Inr (add_pipeline (trim line @ [10]) st)" by blast
qed

theorem pipeline_accumulates_witness:
  "\<not> taken_before_pipeline pr_init (ascii ''[1/2] x'') \<and> pipeline_tag (trim (ascii ''[1/2] x''))
   \<and> pr_step (ascii ''[1/2] x'') pr_init = Inr pipeline_state
   \<and> currentSection pipeline_state = Pipeline
   \<and> list_all (\<lambda>l. \<not> ends_pipeline (trim l)) pipeline_lines
   \<and> (\<exists>st'. pr_loop pipeline_lines pipeline_state = Inr st'
         \<and> pipeline_grown pipeline_state st'
             (ascii ''fetching'' @ [10] @ WARNING @ ascii '' slow'' @ [10]
              @ [BOX_V] @ ascii '' row'' @ [10] @ ascii ''done'' @ [10]))
   \<and> ends_pipeline (trim file_top_line)
   \<and> (\<exists>st'. pr_step file_top_line pipeline_state = Inr st'
         \<and> currentSection st' = FileChange
         \<and> pipelineInfo (result st') = pipelineInfo (result pipeline_state))
   \<and> startsWith (trim (WARNING @ ascii '' slow'')) WARNING
   \<and> pr_step (WARNING @ ascii '' slow'') pipeline_state =
       Inr (add_pipeline (WARNING @ ascii '' slow'' @ [10]) pipeline_state)"
proof -
  have enter: "\<not> taken_before_pipeline pr_init (ascii ''[1/2] x'')"
    "pipeline_tag (trim (ascii ''[1/2] x''))"
    by (simp_all add: taken_before_pipeline_def pipeline_tag_def passed_over_def
        blank_or_separator_def meta_line_def pr_init_def glyph_defs cls_defs str_defs
        re_sep_def re_commit_def re_fileTop_def re_progress_def)
  have st: "add_pipeline (trim (ascii ''[1/2] x'') @ [10]) (pr_init\<lparr>currentSection := Pipeline\<rparr>)
      = pipeline_state"
    by (simp add: pipeline_state_def cls_defs str_defs)
  have sec: "currentSection pipeline_state = Pipeline"
    by (simp add: pipeline_state_def)
  have ne: "list_all (\<lambda>l. \<not> ends_pipeline (trim l)) pipeline_lines"
    by (simp add: pipeline_lines_def ends_pipeline_def passed_over_def blank_or_separator_def
        meta_line_def glyph_defs cls_defs str_defs re_sep_def re_commit_def re_fileTop_def)
  have flt: "concat (map (\<lambda>l. trim l @ [10])
       (filter (\<lambda>l. \<not> passed_over (trim l)) pipeline_lines))
     = ascii ''fetching'' @ [10] @ WARNING @ ascii '' slow'' @ [10]
       @ [BOX_V] @ ascii '' row'' @ [10] @ ascii ''done'' @ [10]"
    by (simp add: pipeline_lines_def passed_over_def blank_or_separator_def meta_line_def
        glyph_defs cls_defs str_defs re_sep_def re_commit_def)
  have ft: "ends_pipeline (trim file_top_line)" "rtest re_fileTop (trim file_top_line)"
    by (simp_all add: file_top_line_def ends_pipeline_def passed_over_def
        blank_or_separator_def meta_line_def glyph_defs cls_defs str_defs re_sep_def
        re_commit_def re_fileTop_def)
  have w: "startsWith (trim (WARNING @ ascii '' slow'')) WARNING"
    "trim (WARNING @ ascii '' slow'') = WARNING @ ascii '' slow''"
    by (simp_all add: glyph_defs cls_defs str_defs)
  from pipeline_accumulates[of pr_init "ascii ''[1/2] x''" pipeline_state pipeline_lines
      file_top_line] enter st sec ne ft
    pipeline_accumulates[of pr_init "ascii ''[1/2] x''" pipeline_state "[]"
      "WARNING @ ascii '' slow''"] w
  show ?thesis by (simp add: flt)
qed

text \<open>
  C6. The claim that a warning line reaches \<open>warnings\<close> in every section fails: in the
  overall-summary section the line is appended to the summary.
\<close>

theorem warning_in_summary_not_collected:
  "parsePRSummary warning_in_summary =
     Inr \<lparr>meta = \<lparr>branch = [], commits = Num 0, changedFiles = Num 0\<rparr>,
          commitHistory = [], fileChanges = [],
          overallSummary = WARNING @ ascii '' careful'',
          pipelineInfo = [], warnings = []\<rparr>"
  by (simp add: warning_in_summary_def render_defs glyph_defs cls_defs str_defs num_defs
      pr_defs)

text \<open>
  C6, as amended. What the loop does with a line that starts with the warning glyph
  depends on the section: in the overall-summary section the line is appended to the
  summary, a line that holds the pipeline marker opens the pipeline section, in the
  pipeline section the line is appended to \<open>pipelineInfo\<close>, and only otherwise
  (header, file change, between) it is appended to \<open>warnings\<close>.
\<close>

theorem warning_line_step:
  assumes "startsWith (trim line) WARNING"
  shows "pr_step line st =
     Inr (if currentSection st = OverallSummary
          then st\<lparr>result := (result st)
                 \<lparr>overallSummary := overallSummary (result st) @ trim line @ ascii '' ''\<rparr>\<rparr>
          else if includes_str (trim line) (ascii ''PR SUMMARIZATION PIPELINE'')
          then st\<lparr>currentSection := Pipeline,
                 result := (result st)
                   \<lparr>pipelineInfo := pipelineInfo (result st) @ trim line @ [10]\<rparr>\<rparr>
          else if currentSection st = Pipeline
          then st\<lparr>result := (result st)
                 \<lparr>pipelineInfo := pipelineInfo (result st) @ trim line @ [10]\<rparr>\<rparr>
          else st\<lparr>result := (result st)\<lparr>warnings := warnings (result st) @ [trim line]\<rparr>\<rparr>)"
proof -
  from assms obtain t where t: "trim line = 0x26A0 # 0xFE0F # t"
    by (auto simp: WARNING_def startsWith_Cons)
  have trimmed: "trim line \<noteq> []" "\<not> rtest re_sep (trim line)"
    "\<not> startsWith (trim line) (ascii ''Branch:'')"
    "\<not> startsWith (trim line) (ascii ''Commits:'')"
    "\<not> startsWith (trim line) (ascii ''Changed files:'')"
    "\<not> rtest re_commit (trim line)" "\<not> rtest re_fileTop (trim line)"
    "\<not> startsWith (trim line) (MEMO @ ascii '' Overall PR Summary:'')"
    "\<not> rtest re_boxOnly (trim line)" "\<not> rtest re_progress (trim line)"
    by (simp_all add: t rtest_Bol startsWith_def ascii_def glyph_defs re_sep_def re_commit_def
        re_fileTop_def re_boxOnly_def re_progress_def)
  have raw: "\<not> rtest re_leadV line" "\<not> rtest re_leadBL line"
    using startsWith_trim_head[OF t, of BOX_V] startsWith_trim_head[OF t, of BOX_BL]
    by (simp_all add: re_leadV_def re_leadBL_def rtest_Bol_Lit is_space_def glyph_defs)
  show ?thesis
    using assms trimmed raw by (simp add: pr_step_def Let_def)
qed

theorem warning_line_step_witness:
  "startsWith (trim (ascii ''  '' @ WARNING @ ascii '' careful'')) WARNING
   \<and> pr_step (ascii ''  '' @ WARNING @ ascii '' careful'') pr_init =
       Inr (pr_init\<lparr>result := (result pr_init)
              \<lparr>warnings := [WARNING @ ascii '' careful'']\<rparr>\<rparr>)"
  using warning_line_step [of "ascii ''  '' @ WARNING @ ascii '' careful''" pr_init]
  by (simp add: glyph_defs cls_defs str_defs pr_init_def)

text \<open>
  C7. The claim that a similarity lies between 0 and 1 fails: the parser stores whatever
  number the line carries. Here a line \<open>Similarity: 7\<close> gives the similarity 7.
\<close>

theorem similarity_above_one:
  "parseSearchOutput similarity_seven =
     Inr [(new_result (ascii ''function'') (ascii ''f''))\<lparr>similarity := Some (Num 7)\<rparr>]
   \<and> \<not> (7 :: rat) \<le> 1"
  by (simp add: similarity_seven_def render_defs glyph_defs cls_defs str_defs num_defs
      search_defs)

text \<open>
  C7, as amended. A similarity, when a record has one, is what \<open>parseFloat\<close> read from a
  run of digits and dots: NaN, the positive infinity, or a finite number that is not
  negative. Nothing bounds it by 1.
\<close>

theorem similarity_not_negative:
  "(\<exists>rs. parseSearchOutput s = Inr rs \<and> list_all similarity_read rs)
   \<and> (\<exists>ans srcs. parseRagOutput s = Some (Inr (ans, srcs)) \<and> list_all similarity_read srcs)"
  using parseSearchOutput_sound[of s] parseRagOutput_sound[of s]
  by (auto simp: sound_def list_all_iff)

theorem similarity_not_negative_witness:
  "(\<exists>rs. parseSearchOutput similarity_seven = Inr rs \<and> list_all similarity_read rs)
   \<and> (\<exists>ans srcs. parseRagOutput similarity_seven = Some (Inr (ans, srcs))
        \<and> list_all similarity_read srcs)"
  using similarity_not_negative [of similarity_seven] .

text \<open>
  C8. The claim fails for a box in which a row before the path rows holds the page
  glyph: the collection of the path starts at that row, the first path row is then read
  as a continuation, and the glyph stays in the file path.
\<close>

theorem glyph_prefixed_to_path:
  "parseRagOutput glyph_in_docstring =
     Some (Inr ([], [(new_result (ascii ''function'') (ascii ''f''))
                       \<lparr>file_path := Some (PAGE @ ascii '' foo/bar.py''),
                        start_line := Some (Num 10), end_line := Some (Num 20)\<rparr>]))"
  by (simp add: glyph_in_docstring_def render_defs glyph_defs cls_defs str_defs num_defs
      rag_defs rag_loop_Nil rag_loop_Cons)

text \<open>
  C8, as amended. Let the lines of the text be: any lines one of which opens the
  sources section (it holds the words \<open>Supporting Sources\<close> and no answer marker, and
  is no query echo); a line that is read as the header of a source box with kind \<open>k\<close>
  and name \<open>n\<close> and that does not hold the words \<open>Supporting Sources\<close>; rows that hold
  no page glyph, are no box header and do not close the box; the two path rows; any
  further lines. The first path row is a vertical border, the page glyph, the first
  fragment and a vertical border; the second is a vertical border, the second fragment
  and a vertical border; any white space may stand between these parts; both fragments
  are not empty, and together they are \<open>foo/bar.py:10-20\<close>. If no line after the path
  rows and before the line that closes the box holds the page glyph or is a box header,
  then the record of the box is emitted, right after the sources that had been pushed
  when the header was read, with kind \<open>k\<close>, name \<open>n\<close>, file path \<open>foo/bar.py\<close>, start
  line 10 and end line 20.
\<close>

theorem wrapped_path_parsed:
  assumes lines: "split_lines (replace_all re_cr [] s) = pre @ header # mid @ row1 # row2 # rest"
    and title: "list_ex sources_title pre"
    and hdr: "box_header_of header = Some (k, n)"
    and nosup: "\<not> includes_str (trim header) (ascii ''Supporting Sources'')"
    and mid: "list_all (\<lambda>l. quiet l \<and> \<not> closes_box l) mid"
    and row1: "row1 = BOX_V # sp1 @ PAGE @ sp2 @ frag1 @ sp3 @ [BOX_V]"
    and row2: "row2 = BOX_V # sp4 @ frag2 @ sp5 @ [BOX_V]"
    and sp: "list_all is_space (sp1 @ sp2 @ sp3 @ sp4 @ sp5)"
    and frag: "frag1 \<noteq> []" "frag2 \<noteq> []" "frag1 @ frag2 = ascii ''foo/bar.py:10-20''"
    and rest: "list_all quiet (takeWhile (\<lambda>l. \<not> closes_box l) rest)"
  shows "\<exists>ans srcs st1 r later.
           parseRagOutput s = Some (Inr (ans, srcs))
         \<and> rag_loop (pre @ [header]) rag_init = Some (Inr st1)
         \<and> srcs = sources st1 @ r # later
         \<and> type r = k \<and> name r = n \<and> file_path r = Some (ascii ''foo/bar.py'')
         \<and> start_line r = Some (Num 10) \<and> end_line r = Some (Num 20)"
proof -
  from sp have sps: "list_all is_space sp1" "list_all is_space sp2" "list_all is_space sp3"
    "list_all is_space sp4" "list_all is_space sp5" by simp_all
  from frag(3) have whole: "frag1 @ frag2 = path_text" by (simp add: path_text_def)
  then have fr1: "set frag1 \<subseteq> set path_text" by (metis Un_upper1 set_append)
  \<comment> \<open>the lines before the box\<close>
  from sources_reached[OF rag_init_good title] obtain st0 where
    l0: "rag_loop pre rag_init = Some (Inr st0)" and g0: "rag_good st0"
    and s0: "inSourcesSection st0" by blast
  \<comment> \<open>the header\<close>
  from step_header[OF g0 s0 hdr nosup] obtain st1 where
    h1: "rag_step header st0 = Inr (st1, False)" and b1: "box_open (sources st1) k n st1"
    by blast
  from rag_loop_single[OF h1] have l1: "rag_loop [header] st0 = Some (Inr st1)" .
  from rag_loop_split[OF g0 l1] have g1: "rag_good st1" by simp
  \<comment> \<open>the rows before the path\<close>
  from loop_mid[OF g1 b1 mid] obtain st2 where
    l2: "rag_loop mid st1 = Some (Inr st2)" and g2: "rag_good st2"
    and b2: "box_open (sources st1) k n st2" by blast
  \<comment> \<open>the two path rows\<close>
  let ?st3 = "st2\<lparr>collectingFilePath := True, filePathLines := [frag1]\<rparr>"
  from step_row1[OF g2 b2 sps(1,2,3) frag(1) fr1]
  have h3: "rag_step row1 st2 = Inr (?st3, False)" by (simp add: row1)
  from rag_loop_single[OF h3] have l3: "rag_loop [row1] st2 = Some (Inr ?st3)" .
  from rag_loop_split[OF g2 l3] have g3: "rag_good ?st3" by simp
  from b2 obtain cur where cur: "currentSource st2 = Some cur"
    and kn: "type cur = k" "name cur = n"
    by (auto simp: box_open_def split: option.splits)
  from b2 have f2: "inSourcesSection st2" "inSourceBox st2" "sources st2 = sources st1"
    by (simp_all add: box_open_def)
  let ?st4 = "?st3\<lparr>currentSource := Some (cur
                    \<lparr>file_path := Some (ascii ''foo/bar.py''), start_line := Some (Num 10),
                     end_line := Some (Num 20)\<rparr>),
                  collectingFilePath := False, filePathLines := []\<rparr>"
  have h4: "rag_step row2 ?st3 = Inr (?st4, False)"
    unfolding row2
    by (rule step_row2[OF g3 _ _ _ _ _ sps(4,5) frag(2) whole]) (simp_all add: f2 cur)
  from rag_loop_single[OF h4] have l4: "rag_loop [row2] ?st3 = Some (Inr ?st4)" .
  from rag_loop_split[OF g3 l4] have g4: "rag_good ?st4" by simp
  have b4: "path_read (sources st1) k n ?st4"
    using f2 kn by (simp add: path_read_def has_path_def)
  \<comment> \<open>the rest of the text\<close>
  from loop_rest[OF g4 b4 rest] obtain st5 where
    l5: "rag_loop rest ?st4 = Some (Inr st5)"
    and b5: "path_read (sources st1) k n st5 \<or> box_closed (sources st1) k n st5
             \<or> emitted (sources st1) k n (sources st5)" by blast
  \<comment> \<open>the whole loop\<close>
  have "rag_loop (pre @ [header] @ mid @ [row1] @ [row2] @ rest) rag_init = Some (Inr st5)"
    using rag_loop_split[OF rag_init_good l0, of "[header] @ mid @ [row1] @ [row2] @ rest"]
      rag_loop_split[OF g0 l1, of "mid @ [row1] @ [row2] @ rest"]
      rag_loop_split[OF g1 l2, of "[row1] @ [row2] @ rest"]
      rag_loop_split[OF g2 l3, of "[row2] @ rest"]
      rag_loop_split[OF g3 l4, of rest] l5
    by simp
  with lines have "parseRagOutput s = Some (Inr (rag_finish st5))"
    by (simp add: parseRagOutput_def)
  moreover from rag_loop_split[OF rag_init_good l0, of "[header]"] l1
  have "rag_loop (pre @ [header]) rag_init = Some (Inr st1)" by simp
  moreover from finish_emitted[OF b5] obtain r later where
    "snd (rag_finish st5) = sources st1 @ r # later" "has_path k n r"
    by (auto simp: emitted_iff)
  ultimately show ?thesis
    by (cases "rag_finish st5") (auto simp: has_path_def)
qed

theorem wrapped_path_parsed_witness:
  "split_lines (replace_all re_cr [] wrapped_sample) =
     wrapped_pre @ wrapped_header # wrapped_mid @ wrapped_row1 # wrapped_row2 # wrapped_rest
   \<and> list_ex sources_title wrapped_pre
   \<and> box_header_of wrapped_header = Some (ascii ''function'', ascii ''f'')
   \<and> list_all (\<lambda>l. quiet l \<and> \<not> closes_box l) wrapped_mid
   \<and> list_all quiet (takeWhile (\<lambda>l. \<not> closes_box l) wrapped_rest)
   \<and> (\<exists>ans srcs st1 r later.
         parseRagOutput wrapped_sample = Some (Inr (ans, srcs))
       \<and> rag_loop (wrapped_pre @ [wrapped_header]) rag_init = Some (Inr st1)
       \<and> srcs = sources st1 @ r # later
       \<and> type r = ascii ''function'' \<and> name r = ascii ''f''
       \<and> file_path r = Some (ascii ''foo/bar.py'')
       \<and> start_line r = Some (Num 10) \<and> end_line r = Some (Num 20))"
proof -
  have lines: "split_lines (replace_all re_cr [] wrapped_sample) =
     wrapped_pre @ wrapped_header # wrapped_mid @ wrapped_row1 # wrapped_row2 # wrapped_rest"
    by (simp add: wrapped_defs render_defs glyph_defs cls_defs str_defs re_cr_def)
  have title: "list_ex sources_title wrapped_pre"
    by (simp add: wrapped_defs sources_title_def render_defs glyph_defs cls_defs str_defs)
  have hdr: "box_header_of wrapped_header = Some (ascii ''function'', ascii ''f'')"
    by (simp add: wrapped_defs box_header_of_def render_defs glyph_defs cls_defs str_defs
        re_boxStart_def)
  have nosup: "\<not> includes_str (trim wrapped_header) (ascii ''Supporting Sources'')"
    by (simp add: wrapped_defs render_defs glyph_defs cls_defs str_defs)
  have mid: "list_all (\<lambda>l. quiet l \<and> \<not> closes_box l) wrapped_mid"
    by (simp add: wrapped_defs quiet_def closes_box_def render_defs glyph_defs cls_defs
        str_defs re_boxStart_def re_boxEnd_def re_ragSim_def re_ragDoc_def)
  have rest: "list_all quiet (takeWhile (\<lambda>l. \<not> closes_box l) wrapped_rest)"
    by (simp add: wrapped_defs quiet_def closes_box_def render_defs glyph_defs cls_defs
        str_defs re_boxStart_def re_boxEnd_def re_ragSim_def re_ragDoc_def)
  have row1: "wrapped_row1 = BOX_V # [32, 32] @ PAGE @ [32] @ ascii ''foo/bar'' @ [32, 32, 32] @ [BOX_V]"
    by (simp add: wrapped_defs)
  have row2: "wrapped_row2 = BOX_V # [32] @ ascii ''.py:10-20'' @ [32, 32, 32, 32] @ [BOX_V]"
    by (simp add: wrapped_defs)
  have sp: "list_all is_space ([32, 32] @ [32] @ [32, 32, 32] @ [32] @ [32, 32, 32, 32])"
    by (simp add: is_space_def)
  have frag: "ascii ''foo/bar'' \<noteq> []" "ascii ''.py:10-20'' \<noteq> []"
    "ascii ''foo/bar'' @ ascii ''.py:10-20'' = ascii ''foo/bar.py:10-20''"
    by (simp_all add: ascii_def)
  from wrapped_path_parsed [OF lines title hdr nosup mid row1 row2 sp frag rest]
    lines title hdr mid rest
  show ?thesis by blast
qed

text \<open>
  C9. In every record of \<open>parseSearchOutput\<close> and every source of \<open>parseRagOutput\<close>
  the file path and the two line numbers are all set or all unset.
\<close>

theorem path_fields_set_together:
  "(\<exists>rs. parseSearchOutput s = Inr rs \<and> list_all path_fields_together rs)
   \<and> (\<exists>ans srcs. parseRagOutput s = Some (Inr (ans, srcs))
        \<and> list_all path_fields_together srcs)"
  using parseSearchOutput_sound[of s] parseRagOutput_sound[of s]
  by (auto simp: sound_def list_all_iff)

theorem path_fields_set_together_witness:
  "(\<exists>rs. parseSearchOutput two_results = Inr rs \<and> list_all path_fields_together rs)
   \<and> (\<exists>ans srcs. parseRagOutput (two_boxes) = Some (Inr (ans, srcs))
        \<and> list_all path_fields_together srcs)"
  using path_fields_set_together [of two_results] path_fields_set_together [of "two_boxes"]
  by blast

text \<open>
  C10. The claim that every source header read while a box is open discards the record
  of that box fails for a header that holds the words \<open>Supporting Sources\<close>: the
  box-start pattern matches the line, but the loop takes it as the title of the sources
  section before it looks for a header, so the open record stays and is emitted at the
  end.
\<close>

theorem open_box_kept_by_title:
  "rtest re_boxStart title_header
   \<and> parseRagOutput open_box_then_title =
       Some (Inr ([], [(new_result (ascii ''function'') (ascii ''a''))
                         \<lparr>file_path := Some (ascii ''a.py''), start_line := Some (Num 1),
                          end_line := Some (Num 2)\<rparr>]))"
  by (simp add: open_box_then_title_def title_header_def render_defs glyph_defs cls_defs
      str_defs num_defs rag_defs rag_loop_Nil rag_loop_Cons)

text \<open>
  C10, as amended. While a box is open (its bottom border has not been read), a line
  that the box-start pattern matches and that does not hold the words
  \<open>Supporting Sources\<close> replaces the current source and pushes nothing: the record of
  the open box is lost. A line that the pattern matches and that holds these words is
  taken as the title of the sources section: it leaves the current source and the
  sources as they are. The state \<open>st\<close> is the one the loop has reached after any lines
  \<open>pre\<close>.
\<close>

theorem open_box_overwritten:
  assumes reach: "rag_loop pre rag_init = Some (Inr st)"
    and box: "inSourceBox st"
    and hdr: "rexec re_boxStart line = Some m"
  shows "(\<not> includes_str (trim line) (ascii ''Supporting Sources'') \<longrightarrow>
           (\<exists>g2 g3. grp line m 2 = Some g2 \<and> grp line m 3 = Some g3 \<and>
              rag_step line st =
                Inr (st\<lparr>currentSource := Some (new_result (toLowerCase g2) (trim g3)),
                        inSourceBox := True, collectingFilePath := False,
                        filePathLines := []\<rparr>,
                     False)))
       \<and> (includes_str (trim line) (ascii ''Supporting Sources'') \<longrightarrow>
            rag_step line st =
              Inr (st\<lparr>inAnswerSection := False, inSourcesSection := True\<rparr>, False))"
proof -
  from rag_loop_good[OF rag_init_good, of pre] reach have good: "rag_good st" by simp
  with box obtain cur where cur: "currentSource st = Some cur"
    and nc: "\<not> collectingCode st" and src: "inSourcesSection st"
    by (auto simp: rag_good_def rag_inv_def)
  from boxStart_groups[OF hdr] obtain g2 g3 where
    g: "grp line m 2 = Some g2" "grp line m 3 = Some g3" by blast
  from boxStart_head[OF hdr] obtain rest where line: "line = BOX_TL # rest" by blast
  have q: "trim line \<noteq> []"
    "\<not> startsWith (trim line) (ascii ''Code Search - RAG Mode Query:'')"
    "\<not> startsWith (trim line) (ascii ''Query:'')"
    unfolding line by (rule row_head; simp add: is_space_def BOX_TL_def)+
  show ?thesis
  proof (intro conjI impI)
    assume nosup: "\<not> includes_str (trim line) (ascii ''Supporting Sources'')"
    have "rag_step line st = rag_box_start line m st"
      using q nosup src hdr by (simp add: rag_step_def rag_sources_def)
    also have "\<dots> = Inr (st\<lparr>currentSource := Some (new_result (toLowerCase g2) (trim g3)),
                     inSourceBox := True, collectingFilePath := False, filePathLines := []\<rparr>,
                  False)"
      using cur nc g by (simp add: rag_box_start_def)
    finally show "\<exists>g2 g3. grp line m 2 = Some g2 \<and> grp line m 3 = Some g3 \<and>
              rag_step line st =
                Inr (st\<lparr>currentSource := Some (new_result (toLowerCase g2) (trim g3)),
                        inSourceBox := True, collectingFilePath := False,
                        filePathLines := []\<rparr>,
                     False)"
      using g by blast
  next
    assume "includes_str (trim line) (ascii ''Supporting Sources'')"
    with q src show "rag_step line st =
        Inr (st\<lparr>inAnswerSection := False, inSourcesSection := True\<rparr>, False)"
      by (simp add: rag_step_def)
  qed
qed

theorem open_box_overwritten_witness:
  "rag_loop open_box_lines rag_init = Some (Inr open_box_state)
   \<and> inSourceBox open_box_state
   \<and> rtest re_boxStart second_header
   \<and> \<not> includes_str (trim second_header) (ascii ''Supporting Sources'')
   \<and> rag_step second_header open_box_state =
       Inr (open_box_state\<lparr>currentSource := Some (new_result (ascii ''function'') (ascii ''b'')),
              inSourceBox := True, collectingFilePath := False, filePathLines := []\<rparr>, False)
   \<and> sources open_box_state = []
   \<and> rtest re_boxStart title_header
   \<and> includes_str (trim title_header) (ascii ''Supporting Sources'')
   \<and> rag_step title_header open_box_state =
       Inr (open_box_state\<lparr>inAnswerSection := False, inSourcesSection := True\<rparr>, False)"
proof -
  have reach: "rag_loop open_box_lines rag_init = Some (Inr open_box_state)"
    by (simp add: open_box_lines_def open_box_state_def render_defs glyph_defs cls_defs
        str_defs num_defs rag_defs rag_loop_Nil rag_loop_Cons)
  have box: "inSourceBox open_box_state" by (simp add: open_box_state_def)
  have "\<exists>m. rexec re_boxStart second_header = Some m
      \<and> grp second_header m 2 = Some (ascii ''FUNCTION'')
      \<and> grp second_header m 3 = Some (ascii ''b'')"
    by (simp add: second_header_def render_defs glyph_defs cls_defs str_defs re_boxStart_def)
  then obtain m where hdr: "rexec re_boxStart second_header = Some m"
    and g: "grp second_header m 2 = Some (ascii ''FUNCTION'')"
      "grp second_header m 3 = Some (ascii ''b'')" by blast
  have nosup: "\<not> includes_str (trim second_header) (ascii ''Supporting Sources'')"
    by (simp add: second_header_def render_defs glyph_defs cls_defs str_defs)
  have low: "toLowerCase (ascii ''FUNCTION'') = ascii ''function''" "trim (ascii ''b'') = ascii ''b''"
    by (simp_all add: str_defs cls_defs)
  have "rtest re_boxStart title_header"
    by (simp add: title_header_def render_defs glyph_defs cls_defs str_defs re_boxStart_def)
  then obtain m' where hdr': "rexec re_boxStart title_header = Some m'"
    by (auto simp: rtest_def)
  have sup: "includes_str (trim title_header) (ascii ''Supporting Sources'')"
    by (simp add: title_header_def render_defs glyph_defs cls_defs str_defs)
  from open_box_overwritten[OF reach box hdr] open_box_overwritten[OF reach box hdr']
    g low reach box nosup sup hdr hdr'
  show ?thesis
    by (simp add: open_box_state_def rtest_def)
qed

end
